theory Spec2Isabelle
  imports Main
begin

section \<open>Editor session state (EditorContext)\<close>

text \<open>
  The types of \<^verbatim>\<open>@/types\<close>: \<^verbatim>\<open>FileType\<close>, \<^verbatim>\<open>FileNode\<close> (without its
  \<^verbatim>\<open>children\<close>, which only the tree builder's nodes carry) and \<^verbatim>\<open>EditorTab\<close>.
  A field that both interfaces declare carries the suffix \<open>_f\<close> (FileNode) or
  \<open>_t\<close> (EditorTab); \<^verbatim>\<open>string | null\<close> is \<open>string option\<close>.
\<close>

datatype file_type = FILE | FOLDER

record file_node =
  id_f :: string
  name_f :: string
  path_f :: string
  type_f :: file_type
  extension_f :: "string option"
  mimeType :: "string option"
  content_f :: "string option"
  size_f :: nat
  parentId :: "string option"
  createdAt :: string
  updatedAt :: string

record editor_tab =
  id_t :: string
  fileId :: string
  name_t :: string
  path_t :: string
  content :: string
  extension_t :: "string option"
  isDirty :: bool
  isActive :: bool

text \<open>
  The three \<^verbatim>\<open>useState\<close> cells of \<^verbatim>\<open>EditorProvider\<close> that the tab operations
  read and write.
\<close>

record session =
  tabs :: "editor_tab list"
  activeTabId :: "string option"
  selectedFile :: "file_node option"

definition empty_session :: session where
  "empty_session = \<lparr>tabs = [], activeTabId = None, selectedFile = None\<rparr>"

text \<open>
  What the outside world answers. A \<^verbatim>\<open>GET /api/files/:id\<close> either rejects, answers
  with \<^verbatim>\<open>response.ok\<close> false, answers with a body that has no \<^verbatim>\<open>file\<close>, or
  answers with \<^verbatim>\<open>data.file.content\<close> (a string or null). A \<^verbatim>\<open>PATCH\<close> rejects,
  answers not-ok, or answers ok. The requests an operation sends are returned with
  its result.
\<close>

datatype fetch_response = FetchRejected | FetchNotOk | FetchBadBody | FetchOk "string option"

datatype save_response = SaveRejected | SaveNotOk | SaveOk

datatype request = GET string | PATCH string string

datatype error = NetworkError | SaveFailed | TypeError

text \<open>\<^verbatim>\<open>`tab-${Date.now()}`\<close>: the decimal digits of the clock value after \<^verbatim>\<open>tab-\<close>.\<close>

definition digit_char :: "nat \<Rightarrow> char" where
  "digit_char d = ''0123456789'' ! d"

function decimal :: "nat \<Rightarrow> string" where
  "decimal n = (if n < 10 then [digit_char n] else decimal (n div 10) @ [digit_char (n mod 10)])"
  by pat_completeness auto

termination
  by (relation "measure (\<lambda>n. n)") auto

declare decimal.simps [simp del]

definition new_tab_id :: "nat \<Rightarrow> string" where
  "new_tab_id now = ''tab-'' @ decimal now"

text \<open>\<^verbatim>\<open>Array.prototype.find\<close> is \<^const>\<open>List.find\<close>; \<^verbatim>\<open>findIndex\<close> answers \<open>-1\<close> when
  no element matches.\<close>

fun findIndex :: "('a \<Rightarrow> bool) \<Rightarrow> 'a list \<Rightarrow> int" where
  "findIndex P [] = -1"
| "findIndex P (x # xs) = (if P x then 0 else (let i = findIndex P xs in if i < 0 then -1 else i + 1))"

text \<open>
  \<^verbatim>\<open>openFile\<close>. A folder is ignored. A tab whose \<^verbatim>\<open>fileId\<close> is the file's id is
  made the active one without a request. Otherwise the content is fetched; every
  failure is caught and logged, and the state stays as it was.
\<close>

definition openFile :: "file_node \<Rightarrow> nat \<Rightarrow> fetch_response \<Rightarrow> session \<Rightarrow> request list \<times> session" where
  "openFile file now resp s =
    (if type_f file = FOLDER then ([], s)
     else case find (\<lambda>t. fileId t = id_f file) (tabs s) of
       Some existingTab \<Rightarrow>
         ([], s\<lparr>activeTabId := Some (id_t existingTab), selectedFile := Some file\<rparr>)
     | None \<Rightarrow>
         (case resp of
            FetchOk c \<Rightarrow>
              (let newTab = \<lparr>id_t = new_tab_id now, fileId = id_f file, name_t = name_f file,
                             path_t = path_f file,
                             content = (case c of None \<Rightarrow> '''' | Some txt \<Rightarrow> txt),
                             extension_t = extension_f file, isDirty = False, isActive = True\<rparr>
               in ([GET (id_f file)],
                   s\<lparr>tabs := map (\<lambda>t. t\<lparr>isActive := False\<rparr>) (tabs s) @ [newTab],
                     activeTabId := Some (id_t newTab), selectedFile := Some file\<rparr>))
          | _ \<Rightarrow> ([GET (id_f file)], s)))"

text \<open>
  \<^verbatim>\<open>closeTab\<close>. \<^verbatim>\<open>newTabs[newActiveIndex].id\<close> with an index of \<open>-1\<close> reads a
  property of \<^verbatim>\<open>undefined\<close>: a TypeError, and no state is written.
\<close>

definition closeTab :: "string \<Rightarrow> session \<Rightarrow> error + session" where
  "closeTab tabId s =
    (let prev = tabs s;
         index = findIndex (\<lambda>t. id_t t = tabId) prev;
         newTabs = filter (\<lambda>t. id_t t \<noteq> tabId) prev
     in if activeTabId s = Some tabId \<and> length newTabs > 0 then
          (let newActiveIndex = min index (int (length newTabs) - 1)
           in if 0 \<le> newActiveIndex
              then Inr (s\<lparr>tabs := newTabs, activeTabId := Some (id_t (newTabs ! nat newActiveIndex))\<rparr>)
              else Inl TypeError)
        else if length newTabs = 0 then
          Inr (s\<lparr>tabs := newTabs, activeTabId := None, selectedFile := None\<rparr>)
        else Inr (s\<lparr>tabs := newTabs\<rparr>))"

definition setActiveTab :: "string \<Rightarrow> session \<Rightarrow> session" where
  "setActiveTab tabId s =
     s\<lparr>activeTabId := Some tabId,
       tabs := map (\<lambda>t. t\<lparr>isActive := (id_t t = tabId)\<rparr>) (tabs s)\<rparr>"

definition updateTabContent :: "string \<Rightarrow> string \<Rightarrow> session \<Rightarrow> session" where
  "updateTabContent tabId c s =
     s\<lparr>tabs := map (\<lambda>t. if id_t t = tabId then t\<lparr>content := c, isDirty := True\<rparr> else t) (tabs s)\<rparr>"

text \<open>
  \<^verbatim>\<open>saveFile\<close>: the requests sent, the error the returned promise rejects with (if
  any) and the state afterwards.
\<close>

definition saveFile :: "string \<Rightarrow> save_response \<Rightarrow> session \<Rightarrow> request list \<times> error option \<times> session" where
  "saveFile tabId resp s =
    (case find (\<lambda>t. id_t t = tabId) (tabs s) of
       None \<Rightarrow> ([], None, s)
     | Some tab \<Rightarrow>
         if \<not> isDirty tab then ([], None, s)
         else (case resp of
                 SaveOk \<Rightarrow>
                   ([PATCH (fileId tab) (content tab)], None,
                    s\<lparr>tabs := map (\<lambda>t. if id_t t = tabId then t\<lparr>isDirty := False\<rparr> else t) (tabs s)\<rparr>)
               | SaveNotOk \<Rightarrow> ([PATCH (fileId tab) (content tab)], Some SaveFailed, s)
               | SaveRejected \<Rightarrow> ([PATCH (fileId tab) (content tab)], Some NetworkError, s)))"

subsection \<open>Sequences of operations\<close>

text \<open>
  One call of an operation, with what the outside world answers to it: the clock
  value \<^verbatim>\<open>Date.now()\<close> and the response to the request it may send. The calls are
  applied one after the other, each to the state the previous one left (the
  sequential, non-racing use of the session). A save whose promise rejects leaves the
  session as it was and the next call goes on from there; the TypeError of
  \<^const>\<open>closeTab\<close> is raised inside the state updater and ends the run.
\<close>

datatype op =
    OpenFile file_node nat fetch_response
  | CloseTab string
  | SetActiveTab string
  | UpdateTabContent string string
  | SaveFile string save_response

fun apply_op :: "op \<Rightarrow> session \<Rightarrow> error + session" where
  "apply_op (OpenFile f now r) s = Inr (snd (openFile f now r s))"
| "apply_op (CloseTab t) s = closeTab t s"
| "apply_op (SetActiveTab t) s = Inr (setActiveTab t s)"
| "apply_op (UpdateTabContent t c) s = Inr (updateTabContent t c s)"
| "apply_op (SaveFile t r) s = Inr (snd (snd (saveFile t r s)))"

fun run :: "op list \<Rightarrow> session \<Rightarrow> error + session" where
  "run [] s = Inr s"
| "run (x # xs) s = (case apply_op x s of Inl e \<Rightarrow> Inl e | Inr s' \<Rightarrow> run xs s')"

text \<open>
  Two conditions on a call, checked against the state it is applied to: the clock
  value of an \<^verbatim>\<open>openFile\<close> gives an id that no open tab has (the clock has moved on
  since the last tab was created), and a \<^verbatim>\<open>setActiveTab\<close> names an open tab (the tab
  strip calls it with \<^verbatim>\<open>tab.id\<close> of a rendered tab). \<open>all_along P ops s\<close> says that
  \<open>P\<close> holds of every call of the run from \<open>s\<close>, up to a call that raises.
\<close>

fun fresh_id :: "op \<Rightarrow> session \<Rightarrow> bool" where
  "fresh_id (OpenFile f now r) s = (new_tab_id now \<notin> set (map id_t (tabs s)))"
| "fresh_id _ s = True"


fun all_along :: "(op \<Rightarrow> session \<Rightarrow> bool) \<Rightarrow> op list \<Rightarrow> session \<Rightarrow> bool" where
  "all_along P [] s = True"
| "all_along P (x # xs) s =
     (P x s \<and> (case apply_op x s of Inl e \<Rightarrow> True | Inr s' \<Rightarrow> all_along P xs s'))"

text \<open>
  The session invariant as the specification words it: no tab and no active id, or
  exactly one tab flagged \<^verbatim>\<open>isActive\<close>, which is the one \<^verbatim>\<open>activeTabId\<close> names.
\<close>

definition session_invariant :: "session \<Rightarrow> bool" where
  "session_invariant s =
     (if tabs s = [] then activeTabId s = None
      else (case filter isActive (tabs s) of
              [t] \<Rightarrow> activeTabId s = Some (id_t t)
            | _ \<Rightarrow> False))"


text \<open>
  The content the store holds for a file, as far as the session can know it: what
  the last \<^verbatim>\<open>GET\<close> that answered ok delivered (shown as the empty string when null),
  or what the last \<^verbatim>\<open>PATCH\<close> that answered ok carried. It is an observer of the
  requests; no operation reads it.
\<close>

fun store_after :: "op \<Rightarrow> session \<Rightarrow> (string \<rightharpoonup> string) \<Rightarrow> (string \<rightharpoonup> string)" where
  "store_after (OpenFile f now r) s p =
     (case (fst (openFile f now r s), r) of
        ([GET i], FetchOk c) \<Rightarrow> p(i \<mapsto> (case c of None \<Rightarrow> '''' | Some txt \<Rightarrow> txt))
      | _ \<Rightarrow> p)"
| "store_after (SaveFile t r) s p =
     (case saveFile t r s of
        ([PATCH i c], None, _) \<Rightarrow> p(i \<mapsto> c)
      | _ \<Rightarrow> p)"
| "store_after _ s p = p"

fun run_store :: "op list \<Rightarrow> session \<Rightarrow> (string \<rightharpoonup> string) \<Rightarrow> (string \<rightharpoonup> string)" where
  "run_store [] s p = p"
| "run_store (x # xs) s p =
     (case apply_op x s of Inl e \<Rightarrow> p | Inr s' \<Rightarrow> run_store xs s' (store_after x s p))"

text \<open>
  The dirty flag as the specification words it (dirty exactly when the content
  differs from the persisted one), and the direction of it that the operations keep
  (a tab that is not dirty shows the persisted content).
\<close>

definition dirty_iff_differs :: "session \<Rightarrow> (string \<rightharpoonup> string) \<Rightarrow> bool" where
  "dirty_iff_differs s p = list_all (\<lambda>t. isDirty t = (p (fileId t) \<noteq> Some (content t))) (tabs s)"

definition clean_is_persisted :: "session \<Rightarrow> (string \<rightharpoonup> string) \<Rightarrow> bool" where
  "clean_is_persisted s p = list_all (\<lambda>t. isDirty t \<or> p (fileId t) = Some (content t)) (tabs s)"

fun is_close :: "op \<Rightarrow> bool" where
  "is_close (CloseTab t) = True"
| "is_close _ = False"


definition dirty_inv :: "session \<Rightarrow> (string \<rightharpoonup> string) \<Rightarrow> bool" where
  "dirty_inv s p = (distinct (map id_t (tabs s)) \<and> distinct (map fileId (tabs s))
     \<and> clean_is_persisted s p)"

section \<open>The tree builder (FileExplorer.buildTree)\<close>

text \<open>
  \<^verbatim>\<open>buildTree\<close> makes one node object per id, \<^verbatim>\<open>{ ...file, children: [] }\<close> for a
  folder and \<^verbatim>\<open>children: undefined\<close> for a file, and keeps it in \<^verbatim>\<open>nodeMap\<close>. The
  arrays \<^verbatim>\<open>rootNodes\<close> and \<^verbatim>\<open>children\<close> hold references to these objects while the
  objects are still being filled, so the model keeps them as what identifies an
  object of the map: its key. The output nodes are the new objects that \<^verbatim>\<open>sortNodes\<close>
  creates, a record of the file row and the sorted children.
\<close>

record node_obj =
  row :: file_node
  children :: "string list option"

type_synonym node_map = "string \<rightharpoonup> node_obj"

datatype file_tree = Node file_node "file_tree list option"

text \<open>The variables in scope in the body of \<^verbatim>\<open>buildTree\<close>: its argument and its two
  locals.\<close>

record build_state =
  files :: "file_node list"
  nodeMap :: node_map
  rootNodes :: "string list"

text \<open>First loop: \<^verbatim>\<open>nodeMap.set(file.id, { ...file, children: ... })\<close>.\<close>

definition index_file :: "file_node \<Rightarrow> build_state \<Rightarrow> build_state" where
  "index_file file st =
     st\<lparr>nodeMap := (nodeMap st)(id_f file \<mapsto>
           \<lparr>row = file, children = (if type_f file = FOLDER then Some [] else None)\<rparr>)\<rparr>"

text \<open>
  Second loop. \<^verbatim>\<open>file.parentId && nodeMap.has(file.parentId)\<close>: null and the empty
  string are falsy. \<^verbatim>\<open>parent.children?.push(node)\<close> does nothing when the parent has
  no \<^verbatim>\<open>children\<close> array.
\<close>

definition link_file :: "file_node \<Rightarrow> build_state \<Rightarrow> build_state" where
  "link_file file st =
     (case parentId file of
        None \<Rightarrow> st\<lparr>rootNodes := rootNodes st @ [id_f file]\<rparr>
      | Some p \<Rightarrow>
          if p \<noteq> [] \<and> nodeMap st p \<noteq> None then
            (case nodeMap st p of
               None \<Rightarrow> st
             | Some parent \<Rightarrow>
                 (case children parent of
                    None \<Rightarrow> st
                  | Some cs \<Rightarrow>
                      st\<lparr>nodeMap := (nodeMap st)(p \<mapsto> parent\<lparr>children := Some (cs @ [id_f file])\<rparr>)\<rparr>))
          else st\<lparr>rootNodes := rootNodes st @ [id_f file]\<rparr>)"

text \<open>
  \<^verbatim>\<open>Array.prototype.sort\<close> with a comparator is stable; for a consistent comparator
  its result is the one stable insertion sort gives. The comparator of \<^verbatim>\<open>sortNodes\<close>
  puts folders first and then asks \<^verbatim>\<open>a.name.localeCompare(b.name)\<close>, the collation
  of the runtime's locale, which is a parameter \<open>lc\<close> here.
\<close>

fun insort_by :: "('a \<Rightarrow> 'a \<Rightarrow> int) \<Rightarrow> 'a \<Rightarrow> 'a list \<Rightarrow> 'a list" where
  "insort_by cmp x [] = [x]"
| "insort_by cmp x (y # ys) = (if cmp x y \<le> 0 then x # y # ys else y # insort_by cmp x ys)"

definition sort_by :: "('a \<Rightarrow> 'a \<Rightarrow> int) \<Rightarrow> 'a list \<Rightarrow> 'a list" where
  "sort_by cmp xs = foldr (insort_by cmp) xs []"

definition compare_nodes :: "(string \<Rightarrow> string \<Rightarrow> int) \<Rightarrow> file_node \<Rightarrow> file_node \<Rightarrow> int" where
  "compare_nodes lc a b =
     (if type_f a \<noteq> type_f b then (if type_f a = FOLDER then -1 else 1)
      else lc (name_f a) (name_f b))"

text \<open>
  \<^verbatim>\<open>sortNodes\<close>: the array of references is read through the map, sorted, and every
  node is copied with its children sorted in turn. The recursion follows the
  references, so it is bounded by a depth \<open>n\<close>: \<open>None\<close> means that the depth did not
  suffice. (The in-place reordering that \<^verbatim>\<open>sort\<close> leaves behind in the array is not
  kept here: the array is read again only if the same node is reached twice, and
  sorting a sorted array changes nothing. The builder on a store, further down, keeps
  it.)
\<close>

fun sortNodes :: "(string \<Rightarrow> string \<Rightarrow> int) \<Rightarrow> node_map \<Rightarrow> nat \<Rightarrow> string list \<Rightarrow> file_tree list option" where
  "sortNodes lc m 0 nodes = None"
| "sortNodes lc m (Suc n) nodes =
     those (map (\<lambda>node. case children node of
                           None \<Rightarrow> Some (Node (row node) None)
                         | Some cs \<Rightarrow> map_option (\<lambda>ts. Node (row node) (Some ts)) (sortNodes lc m n cs))
                (sort_by (\<lambda>a b. compare_nodes lc (row a) (row b)) (List.map_filter m nodes)))"

text \<open>
  The body of \<^verbatim>\<open>buildTree\<close>: the state after the two loops and the value returned.
  No chain of children is longer than the number of rows unless it runs in a cycle,
  so that number (plus one for the roots) is the depth given to \<^const>\<open>sortNodes\<close>.
\<close>

definition buildTree_body :: "(string \<Rightarrow> string \<Rightarrow> int) \<Rightarrow> file_node list \<Rightarrow> build_state \<times> file_tree list option" where
  "buildTree_body lc fs =
     (let st0 = \<lparr>files = fs, nodeMap = Map.empty, rootNodes = []\<rparr>;
          st1 = fold index_file (files st0) st0;
          st2 = fold link_file (files st1) st1
      in (st2, sortNodes lc (nodeMap st2) (Suc (length (files st2))) (rootNodes st2)))"

definition buildTree :: "(string \<Rightarrow> string \<Rightarrow> int) \<Rightarrow> file_node list \<Rightarrow> file_tree list option" where
  "buildTree lc fs = snd (buildTree_body lc fs)"

text \<open>Reading a forest: the row of a node, all rows in pre-order, and a property of
  every list of siblings (the roots and each node's children).\<close>

fun node_row :: "file_tree \<Rightarrow> file_node" where
  "node_row (Node f cs) = f"

fun rows_of :: "file_tree \<Rightarrow> file_node list" where
  "rows_of (Node f None) = [f]"
| "rows_of (Node f (Some ts)) = f # concat (map rows_of ts)"

fun every_level :: "(file_tree list \<Rightarrow> bool) \<Rightarrow> file_tree \<Rightarrow> bool" where
  "every_level P (Node f None) = True"
| "every_level P (Node f (Some ts)) = (P ts \<and> list_all (every_level P) ts)"

definition forest_levels :: "(file_tree list \<Rightarrow> bool) \<Rightarrow> file_tree list \<Rightarrow> bool" where
  "forest_levels P ts = (P ts \<and> list_all (every_level P) ts)"

text \<open>The order of the specification on a list of siblings: no file before a folder,
  and names of the same type in the order of the comparison.\<close>

definition in_order :: "(string \<Rightarrow> string \<Rightarrow> int) \<Rightarrow> file_node \<Rightarrow> file_node \<Rightarrow> bool" where
  "in_order lc a b =
     (\<not> (type_f a = FILE \<and> type_f b = FOLDER) \<and> (type_f a = type_f b \<longrightarrow> lc (name_f a) (name_f b) \<le> 0))"

definition siblings_sorted :: "(string \<Rightarrow> string \<Rightarrow> int) \<Rightarrow> file_tree list \<Rightarrow> bool" where
  "siblings_sorted lc ts = sorted_wrt (in_order lc) (map node_row ts)"

text \<open>A comparison is consistent when it is total and transitive.\<close>

definition consistent :: "(string \<Rightarrow> string \<Rightarrow> int) \<Rightarrow> bool" where
  "consistent lc = ((\<forall>a b. lc a b \<le> 0 \<or> lc b a \<le> 0)
     \<and> (\<forall>a b c. lc a b \<le> 0 \<longrightarrow> lc b c \<le> 0 \<longrightarrow> lc a c \<le> 0))"

subsection \<open>Notions used in the proofs\<close>

text \<open>The copy that \<^const>\<open>sortNodes\<close> makes of one node.\<close>

definition copy_node :: "(string \<Rightarrow> string \<Rightarrow> int) \<Rightarrow> node_map \<Rightarrow> nat \<Rightarrow> node_obj \<Rightarrow> file_tree option" where
  "copy_node lc m n node = (case children node of
       None \<Rightarrow> Some (Node (row node) None)
     | Some cs \<Rightarrow> map_option (\<lambda>ts. Node (row node) (Some ts)) (sortNodes lc m n cs))"

text \<open>
  The parent a row is attached to: its \<^verbatim>\<open>parentId\<close> when that is a non-empty string
  and the id of some row. The map and the roots that the two loops build, told
  directly: a key holds the last row with that id and, for a folder, the ids of the
  rows seen so far that are attached to it.
\<close>

definition parent_in :: "file_node list \<Rightarrow> file_node \<Rightarrow> string option" where
  "parent_in fs g = (case parentId g of
       None \<Rightarrow> None
     | Some p \<Rightarrow> if p \<noteq> [] \<and> p \<in> set (map id_f fs) then Some p else None)"

definition linked :: "file_node list \<Rightarrow> file_node list \<Rightarrow> node_map" where
  "linked fs seen i = (case find (\<lambda>f. id_f f = i) (rev fs) of
       None \<Rightarrow> None
     | Some f \<Rightarrow> Some \<lparr>row = f, children =
         (if type_f f = FOLDER
          then Some (map id_f (filter (\<lambda>g. parent_in fs g = Some i) seen)) else None)\<rparr>)"

definition roots_of :: "file_node list \<Rightarrow> file_node list \<Rightarrow> string list" where
  "roots_of fs seen = map id_f (filter (\<lambda>g. parent_in fs g = None) seen)"

text \<open>The references below a reference; the references exactly \<open>k\<close> steps below a
  list of them; and all references at most \<open>n\<close> steps below.\<close>

definition kids :: "node_map \<Rightarrow> string \<Rightarrow> string list" where
  "kids m i = (case m i of
       None \<Rightarrow> []
     | Some node \<Rightarrow> (case children node of None \<Rightarrow> [] | Some cs \<Rightarrow> cs))"

fun lev :: "node_map \<Rightarrow> nat \<Rightarrow> string list \<Rightarrow> string list" where
  "lev m 0 ids = ids"
| "lev m (Suc k) ids = lev m k (concat (map (kids m) ids))"

fun reach :: "node_map \<Rightarrow> nat \<Rightarrow> string list \<Rightarrow> string list" where
  "reach m 0 ids = ids"
| "reach m (Suc n) ids = ids @ reach m n (concat (map (kids m) ids))"

text \<open>The parent of an id, and being \<open>d\<close> steps below a root.\<close>

definition par :: "file_node list \<Rightarrow> string \<Rightarrow> string option" where
  "par fs x = (case find (\<lambda>f. id_f f = x) fs of None \<Rightarrow> None | Some g \<Rightarrow> parent_in fs g)"

fun depth_is :: "file_node list \<Rightarrow> nat \<Rightarrow> string \<Rightarrow> bool" where
  "depth_is fs 0 x = (par fs x = None)"
| "depth_is fs (Suc d) x = (case par fs x of None \<Rightarrow> False | Some p \<Rightarrow> depth_is fs d p)"

section \<open>The tree builder on a store\<close>

text \<open>
  The builder once more, with its objects and arrays in a store, so that what a call
  writes can be told from what it leaves alone. A cell of the store is an object (the
  fields of a file row and its \<^verbatim>\<open>children\<close>, a reference to an array or undefined) or
  an array of references. A reference is a position in the store; \<^verbatim>\<open>[]\<close> and an
  object literal take the next free position, and a write replaces a cell. The argument
  \<^verbatim>\<open>files\<close> is a reference to an array of references to row objects. \<open>None\<close> stands
  for a read that finds no cell of the expected kind (reading a property of undefined)
  and, in \<^verbatim>\<open>sortNodes\<close>, for a recursion deeper than the bound.
\<close>

datatype cell = Obj file_node "nat option" | Arr "nat list"

type_synonym store = "cell list"

definition alloc :: "cell \<Rightarrow> store \<Rightarrow> nat \<times> store" where
  "alloc c h = (length h, h @ [c])"

definition look :: "store \<Rightarrow> nat \<Rightarrow> cell option" where
  "look h a = (if a < length h then Some (h ! a) else None)"

text \<open>\<^verbatim>\<open>array[i]\<close>, \<^verbatim>\<open>array.length\<close> and the fields of an object.\<close>

definition element :: "store \<Rightarrow> nat \<Rightarrow> nat \<Rightarrow> nat option" where
  "element h a i = (case look h a of
       Some (Arr xs) \<Rightarrow> if i < length xs then Some (xs ! i) else None
     | _ \<Rightarrow> None)"

definition count :: "store \<Rightarrow> nat \<Rightarrow> nat option" where
  "count h a = (case look h a of Some (Arr xs) \<Rightarrow> Some (length xs) | _ \<Rightarrow> None)"

definition obj_at :: "store \<Rightarrow> nat \<Rightarrow> (file_node \<times> nat option) option" where
  "obj_at h a = (case look h a of Some (Obj r c) \<Rightarrow> Some (r, c) | _ \<Rightarrow> None)"

text \<open>\<^verbatim>\<open>array.push(x)\<close>: a write to the cell of the array.\<close>

definition push :: "nat \<Rightarrow> nat \<Rightarrow> store \<Rightarrow> store option" where
  "push a x h = (case look h a of Some (Arr xs) \<Rightarrow> Some (h[a := Arr (xs @ [x])]) | _ \<Rightarrow> None)"

text \<open>\<^verbatim>\<open>forEach\<close> takes the length of the array when it starts and calls the function
  with each index below it in turn; the function reads the element when it is called.\<close>

definition forEach :: "(nat \<Rightarrow> 's \<Rightarrow> 's option) \<Rightarrow> nat \<Rightarrow> 's \<Rightarrow> 's option" where
  "forEach body n st = fold (\<lambda>i r. case r of None \<Rightarrow> None | Some s \<Rightarrow> body i s) [0..<n] (Some st)"

text \<open>First loop: the array for \<^verbatim>\<open>children\<close> (for a folder), then the object that
  copies the row, then \<^verbatim>\<open>nodeMap.set\<close>. The map is a local of the call that holds
  references.\<close>

definition index_file_store :: "nat \<Rightarrow> nat \<Rightarrow> store \<times> (string \<rightharpoonup> nat) \<Rightarrow> (store \<times> (string \<rightharpoonup> nat)) option" where
  "index_file_store filesRef i st =
     (case st of (h, nm) \<Rightarrow>
        (case element h filesRef i of
           None \<Rightarrow> None
         | Some f \<Rightarrow>
             (case obj_at h f of
                None \<Rightarrow> None
              | Some (file, c) \<Rightarrow>
                  if type_f file = FOLDER then
                    (case alloc (Arr []) h of (ca, h1) \<Rightarrow>
                       (case alloc (Obj file (Some ca)) h1 of (node, h2) \<Rightarrow>
                          Some (h2, nm(id_f file \<mapsto> node))))
                  else
                    (case alloc (Obj file None) h of (node, h1) \<Rightarrow>
                       Some (h1, nm(id_f file \<mapsto> node))))))"

text \<open>Second loop: the node of the row (\<^verbatim>\<open>nodeMap.get(file.id)!\<close>, there since the
  first loop) is pushed to the \<^verbatim>\<open>children\<close> array of the parent's node, if the parent
  has one, or to \<^verbatim>\<open>rootNodes\<close>.\<close>

definition link_file_store :: "nat \<Rightarrow> nat \<Rightarrow> (string \<rightharpoonup> nat) \<Rightarrow> nat \<Rightarrow> store \<Rightarrow> store option" where
  "link_file_store filesRef roots nm i h =
     (case element h filesRef i of
        None \<Rightarrow> None
      | Some f \<Rightarrow>
          (case obj_at h f of
             None \<Rightarrow> None
           | Some (file, c) \<Rightarrow>
               (case nm (id_f file) of
                  None \<Rightarrow> None
                | Some node \<Rightarrow>
                    (case parentId file of
                       None \<Rightarrow> push roots node h
                     | Some p \<Rightarrow>
                         if p \<noteq> [] \<and> nm p \<noteq> None then
                           (case nm p of
                              None \<Rightarrow> Some h
                            | Some parent \<Rightarrow>
                                (case obj_at h parent of
                                   None \<Rightarrow> None
                                 | Some (r, None) \<Rightarrow> Some h
                                 | Some (r, Some ca) \<Rightarrow> push ca node h))
                         else push roots node h))))"

text \<open>
  \<^verbatim>\<open>nodes.sort(...)\<close> reads the type and the name of every object the array refers to
  and writes the references back in the sorted order, into the same array.
\<close>

definition keyed :: "store \<Rightarrow> nat list \<Rightarrow> (nat \<times> file_node) list option" where
  "keyed h xs = those (map (\<lambda>a. case obj_at h a of None \<Rightarrow> None | Some (r, c) \<Rightarrow> Some (a, r)) xs)"

definition sort_store :: "(string \<Rightarrow> string \<Rightarrow> int) \<Rightarrow> nat \<Rightarrow> store \<Rightarrow> store option" where
  "sort_store lc nodes h =
     (case look h nodes of
        Some (Arr xs) \<Rightarrow>
          (case keyed h xs of
             None \<Rightarrow> None
           | Some ps \<Rightarrow>
               Some (h[nodes := Arr (map fst (sort_by (\<lambda>p q. compare_nodes lc (snd p) (snd q)) ps))]))
      | _ \<Rightarrow> None)"

text \<open>
  \<^verbatim>\<open>.map(node => ({ ...node, children: ... }))\<close> over the sorted array: for each index
  the element is read, its fields are read, its \<^verbatim>\<open>children\<close> array (every array is
  truthy) is sorted and copied by the recursive call \<open>sorter\<close>, and the copy of the
  node is a new object. The results are the elements of a new array. The new object
  and the new array get their positions when their contents are there; nothing refers
  to them before.
\<close>

fun copy_nodes :: "(store \<Rightarrow> nat \<Rightarrow> (nat \<times> store) option) \<Rightarrow> store \<Rightarrow> nat \<Rightarrow> nat list \<Rightarrow> (nat list \<times> store) option" where
  "copy_nodes sorter h nodes [] = Some ([], h)"
| "copy_nodes sorter h nodes (i # is) =
     (case element h nodes i of
        None \<Rightarrow> None
      | Some node \<Rightarrow>
          (case obj_at h node of
             None \<Rightarrow> None
           | Some (r, c) \<Rightarrow>
               (case (case c of
                        None \<Rightarrow> Some (None, h)
                      | Some ca \<Rightarrow> (case sorter h ca of None \<Rightarrow> None | Some (ca', h') \<Rightarrow> Some (Some ca', h'))) of
                  None \<Rightarrow> None
                | Some (c', h1) \<Rightarrow>
                    (case alloc (Obj r c') h1 of (z, h2) \<Rightarrow>
                       (case copy_nodes sorter h2 nodes is of
                          None \<Rightarrow> None
                        | Some (zs, h3) \<Rightarrow> Some (z # zs, h3))))))"

fun sortNodes_store :: "(string \<Rightarrow> string \<Rightarrow> int) \<Rightarrow> nat \<Rightarrow> store \<Rightarrow> nat \<Rightarrow> (nat \<times> store) option" where
  "sortNodes_store lc 0 h nodes = None"
| "sortNodes_store lc (Suc n) h nodes =
     (case sort_store lc nodes h of
        None \<Rightarrow> None
      | Some h1 \<Rightarrow>
          (case count h1 nodes of
             None \<Rightarrow> None
           | Some len \<Rightarrow>
               (case copy_nodes (sortNodes_store lc n) h1 nodes [0..<len] of
                  None \<Rightarrow> None
                | Some (zs, h2) \<Rightarrow> Some (alloc (Arr zs) h2))))"

text \<open>
  The body of \<^verbatim>\<open>buildTree\<close>: \<^verbatim>\<open>rootNodes\<close> is a new array, the two loops run over
  \<^verbatim>\<open>files\<close>, and \<^verbatim>\<open>sortNodes(rootNodes)\<close> is returned, a reference, together with
  the store as the call leaves it. The recursion is bounded as in
  \<^const>\<open>buildTree_body\<close>.
\<close>

definition buildTree_store :: "(string \<Rightarrow> string \<Rightarrow> int) \<Rightarrow> store \<Rightarrow> nat \<Rightarrow> (nat \<times> store) option" where
  "buildTree_store lc h filesRef =
     (case alloc (Arr []) h of (roots, h0) \<Rightarrow>
        (case count h0 filesRef of
           None \<Rightarrow> None
         | Some n1 \<Rightarrow>
             (case forEach (index_file_store filesRef) n1 (h0, Map.empty) of
                None \<Rightarrow> None
              | Some (h1, nm) \<Rightarrow>
                  (case count h1 filesRef of
                     None \<Rightarrow> None
                   | Some n2 \<Rightarrow>
                       (case forEach (link_file_store filesRef roots nm) n2 h1 of
                          None \<Rightarrow> None
                        | Some h2 \<Rightarrow> sortNodes_store lc (Suc n2) h2 roots)))))"

text \<open>
  Reading the store: the rows that an array of row objects refers to, and the forest
  below an array of nodes, to a given depth.
\<close>

definition rows_at :: "store \<Rightarrow> nat \<Rightarrow> file_node list option" where
  "rows_at h filesRef =
     (case look h filesRef of
        Some (Arr fs) \<Rightarrow> those (map (\<lambda>a. case obj_at h a of None \<Rightarrow> None | Some (r, c) \<Rightarrow> Some r) fs)
      | _ \<Rightarrow> None)"

definition tree_with :: "(nat \<Rightarrow> file_tree list option) \<Rightarrow> store \<Rightarrow> nat \<Rightarrow> file_tree option" where
  "tree_with forest h a =
     (case obj_at h a of
        None \<Rightarrow> None
      | Some (r, None) \<Rightarrow> Some (Node r None)
      | Some (r, Some ca) \<Rightarrow> (case forest ca of None \<Rightarrow> None | Some ts \<Rightarrow> Some (Node r (Some ts))))"

fun forest_at :: "nat \<Rightarrow> store \<Rightarrow> nat \<Rightarrow> file_tree list option" where
  "forest_at 0 h a = None"
| "forest_at (Suc n) h a =
     (case look h a of
        Some (Arr xs) \<Rightarrow> those (map (tree_with (forest_at n h) h) xs)
      | _ \<Rightarrow> None)"

subsection \<open>Notions used in the proofs (store)\<close>

text \<open>
  How the store and the map of references stand for the map of \<^const>\<open>buildTree_body\<close>:
  the node of a key is an object above \<open>n0\<close> with the row of the node, and the
  \<^verbatim>\<open>children\<close> of a folder is the array right below it, holding the references of
  the ids that the node of the value model holds.
\<close>

definition node_ok :: "nat \<Rightarrow> (string \<rightharpoonup> nat) \<Rightarrow> store \<Rightarrow> string \<Rightarrow> nat \<Rightarrow> node_obj \<Rightarrow> bool" where
  "node_ok n0 nm h i a node =
     (n0 < a \<and> a < length h \<and> id_f (row node) = i \<and>
      (case children node of
         None \<Rightarrow> h ! a = Obj (row node) None
       | Some cs \<Rightarrow>
           (\<exists>ca xs. Suc ca = a \<and> n0 < ca \<and> h ! a = Obj (row node) (Some ca) \<and> h ! ca = Arr xs
              \<and> map nm cs = map Some xs)))"

definition rel_store :: "nat \<Rightarrow> (string \<rightharpoonup> nat) \<Rightarrow> store \<Rightarrow> node_map \<Rightarrow> bool" where
  "rel_store n0 nm h m =
     (\<forall>i. case nm i of
            None \<Rightarrow> m i = None
          | Some a \<Rightarrow> (\<exists>node. m i = Some node \<and> node_ok n0 nm h i a node))"

definition kids_empty :: "node_map \<Rightarrow> bool" where
  "kids_empty m = (\<forall>i node. m i = Some node \<longrightarrow> children node = None \<or> children node = Some [])"

text \<open>The row of the object at a reference (an empty row where there is no object),
  and the order in which \<^const>\<open>sort_store\<close> leaves an array.\<close>

definition row_at :: "store \<Rightarrow> nat \<Rightarrow> file_node" where
  "row_at h a =
     (case obj_at h a of
        Some (r, c) \<Rightarrow> r
      | None \<Rightarrow> \<lparr>id_f = [], name_f = [], path_f = [], type_f = FILE, extension_f = None,
                 mimeType = None, content_f = None, size_f = 0, parentId = None,
                 createdAt = [], updatedAt = []\<rparr>)"

definition sorted_refs :: "(string \<Rightarrow> string \<Rightarrow> int) \<Rightarrow> store \<Rightarrow> nat list \<Rightarrow> nat list" where
  "sorted_refs lc h xs =
     (case keyed h xs of
        None \<Rightarrow> xs
      | Some ps \<Rightarrow> map fst (sort_by (\<lambda>p q. compare_nodes lc (snd p) (snd q)) ps))"

definition cmp_refs :: "(string \<Rightarrow> string \<Rightarrow> int) \<Rightarrow> store \<Rightarrow> nat \<Rightarrow> nat \<Rightarrow> int" where
  "cmp_refs lc h a b = compare_nodes lc (row_at h a) (row_at h b)"

text \<open>
  A store \<open>h'\<close> that \<^const>\<open>sortNodes_store\<close> can reach from \<open>h\<close>, where \<open>h2\<close> is the
  store that the two loops left: cells are added, and a cell that was there is as it
  was, unless it is an array made by the loops, which may have been sorted.
\<close>

definition evolves :: "(string \<Rightarrow> string \<Rightarrow> int) \<Rightarrow> nat \<Rightarrow> store \<Rightarrow> store \<Rightarrow> store \<Rightarrow> bool" where
  "evolves lc n0 h2 h h' =
     (length h \<le> length h' \<and>
      (\<forall>a<length h. h' ! a = h ! a \<or>
         (n0 \<le> a \<and> a < length h2 \<and> (\<exists>xs. h2 ! a = Arr xs \<and> h' ! a = Arr (sorted_refs lc h2 xs)))))"

text \<open>A reference and a node of the value model that stand for the same node.\<close>

definition same_node :: "nat \<Rightarrow> (string \<rightharpoonup> nat) \<Rightarrow> store \<Rightarrow> node_map \<Rightarrow> nat \<Rightarrow> node_obj \<Rightarrow> bool" where
  "same_node n0 nm h m a node = (\<exists>i. nm i = Some a \<and> m i = Some node \<and> node_ok n0 nm h i a node)"

text \<open>The cells from \<open>b\<close> on refer to cells from \<open>b\<close> on only.\<close>

definition cell_closed :: "nat \<Rightarrow> nat \<Rightarrow> cell \<Rightarrow> bool" where
  "cell_closed b n c =
     (case c of
        Obj r k \<Rightarrow> (case k of None \<Rightarrow> True | Some ca \<Rightarrow> b \<le> ca \<and> ca < n)
      | Arr xs \<Rightarrow> (\<forall>x\<in>set xs. b \<le> x \<and> x < n))"

definition closed_from :: "nat \<Rightarrow> store \<Rightarrow> bool" where
  "closed_from b h = (\<forall>a. b \<le> a \<and> a < length h \<longrightarrow> cell_closed b (length h) (h ! a))"

text \<open>
  What \<^const>\<open>sortNodes_store\<close> does on an array that stands for the ids \<open>cs\<close>, told by
  what \<^const>\<open>sortNodes\<close> does on \<open>cs\<close>: neither returns, or the one returns a forest and
  the other a reference to an array at which that forest is read.
\<close>

definition sorts_as :: "(string \<Rightarrow> string \<Rightarrow> int) \<Rightarrow> nat \<Rightarrow> store \<Rightarrow> node_map \<Rightarrow> nat \<Rightarrow> store \<Rightarrow> nat \<Rightarrow> string list \<Rightarrow> bool" where
  "sorts_as lc n0 h2 m n h ca cs =
     (case sortNodes lc m n cs of
        None \<Rightarrow> sortNodes_store lc n h ca = None
      | Some ts \<Rightarrow>
          (\<exists>out h'. sortNodes_store lc n h ca = Some (out, h') \<and> evolves lc n0 h2 h h'
             \<and> closed_from (length h2) h' \<and> length h2 \<le> out \<and> out < length h'
             \<and> forest_at n h' out = Some ts))"

definition copies_as :: "(string \<Rightarrow> string \<Rightarrow> int) \<Rightarrow> nat \<Rightarrow> store \<Rightarrow> node_map \<Rightarrow> nat \<Rightarrow> store \<Rightarrow> nat \<Rightarrow> nat list \<Rightarrow> node_obj list \<Rightarrow> bool" where
  "copies_as lc n0 h2 m n h ca is ns =
     (case those (map (\<lambda>i. copy_node lc m n (ns ! i)) is) of
        None \<Rightarrow> copy_nodes (sortNodes_store lc n) h ca is = None
      | Some ts \<Rightarrow>
          (\<exists>zs h'. copy_nodes (sortNodes_store lc n) h ca is = Some (zs, h') \<and> evolves lc n0 h2 h h'
             \<and> closed_from (length h2) h'
             \<and> list_all2 (\<lambda>z t. length h2 \<le> z \<and> z < length h'
                    \<and> tree_with (forest_at n h') h' z = Some t) zs ts))"

section \<open>Worked examples\<close>

text \<open>Concrete records for the worked examples: a file row with the given id, name,
  type and parent, and the tab that \<^const>\<open>openFile\<close> creates for it.\<close>

definition mk_file :: "string \<Rightarrow> string \<Rightarrow> file_type \<Rightarrow> string option \<Rightarrow> file_node" where
  "mk_file i n ty p =
     \<lparr>id_f = i, name_f = n, path_f = n, type_f = ty, extension_f = None, mimeType = None,
      content_f = None, size_f = 0, parentId = p, createdAt = [], updatedAt = []\<rparr>"

definition mk_tab :: "string \<Rightarrow> string \<Rightarrow> string \<Rightarrow> string \<Rightarrow> bool \<Rightarrow> bool \<Rightarrow> editor_tab" where
  "mk_tab i f n c d a =
     \<lparr>id_t = i, fileId = f, name_t = n, path_t = n, content = c, extension_t = None,
      isDirty = d, isActive = a\<rparr>"

definition two_tabs :: session where
  "two_tabs = \<lparr>tabs = [mk_tab ''tab-1'' ''f1'' ''a.js'' ''x'' False True,
                      mk_tab ''tab-2'' ''f2'' ''b.js'' ''y'' False False],
               activeTabId = Some ''tab-1'', selectedFile = None\<rparr>"

definition three_tabs :: session where
  "three_tabs = \<lparr>tabs = [mk_tab ''tab-1'' ''f1'' ''a.js'' ''x'' False False,
                        mk_tab ''tab-2'' ''f2'' ''b.js'' ''y'' False True,
                        mk_tab ''tab-3'' ''f3'' ''c.js'' ''z'' False False],
                 activeTabId = Some ''tab-2'', selectedFile = None\<rparr>"

definition edited_session :: session where
  "edited_session =
     updateTabContent ''tab-1'' ''y''
       (snd (openFile (mk_file ''5'' ''a.js'' FILE None) 1 (FetchOk (Some ''x'')) empty_session))"

definition file_a :: file_node where
  "file_a = mk_file ''5'' ''a.js'' FILE None"

definition file_b :: file_node where
  "file_b = mk_file ''6'' ''b.js'' FILE None"

definition file_c :: file_node where
  "file_c = mk_file ''7'' ''c.js'' FILE None"

definition ops_between :: "op list" where
  "ops_between = [OpenFile file_b 2 (FetchOk (Some ''z'')), UpdateTabContent ''tab-1'' ''y'']"

definition edit_and_restore :: "op list" where
  "edit_and_restore = [OpenFile file_a 1 (FetchOk (Some ''x'')), UpdateTabContent ''tab-1'' ''y'',
                       UpdateTabContent ''tab-1'' ''x'']"

definition edit_and_save :: "op list" where
  "edit_and_save = [OpenFile file_a 1 (FetchOk (Some ''x'')), UpdateTabContent ''tab-1'' ''y'',
                    SaveFile ''tab-1'' SaveNotOk, SaveFile ''tab-1'' SaveOk]"

text \<open>A consistent comparison to run the builder with: names by their character
  codes, left to right, a proper prefix first.\<close>

fun by_code :: "string \<Rightarrow> string \<Rightarrow> int" where
  "by_code [] [] = 0"
| "by_code [] (y # ys) = -1"
| "by_code (x # xs) [] = 1"
| "by_code (x # xs) (y # ys) =
     (if (of_char x :: nat) < of_char y then -1
      else if (of_char y :: nat) < of_char x then 1
      else by_code xs ys)"

text \<open>The scenario of the specification: a folder \<open>src\<close> with \<open>a.js\<close> in it and
  \<open>b.js\<close> beside it; and rows whose parent is a file, is missing, or is the empty
  string.\<close>

definition scenario_rows :: "file_node list" where
  "scenario_rows = [mk_file ''1'' ''src'' FOLDER None,
                    mk_file ''2'' ''a.js'' FILE (Some ''1''),
                    mk_file ''3'' ''b.js'' FILE None]"

definition orphan_rows :: "file_node list" where
  "orphan_rows = [mk_file ''1'' ''b.js'' FILE None,
                  mk_file ''2'' ''lost.js'' FILE (Some ''1''),
                  mk_file ''3'' ''a'' FOLDER (Some ''9'')]"

definition empty_id_rows :: "file_node list" where
  "empty_id_rows = [mk_file [] ''a.js'' FILE None,
                    mk_file ''2'' ''b.js'' FILE (Some [])]"

definition unsorted_rows :: "file_node list" where
  "unsorted_rows = [mk_file ''1'' ''b.js'' FILE None,
                    mk_file ''2'' ''src'' FOLDER None,
                    mk_file ''3'' ''a.js'' FILE None,
                    mk_file ''4'' ''z.ts'' FILE (Some ''2''),
                    mk_file ''5'' ''lib'' FOLDER (Some ''2'')]"

text \<open>
  A store with the rows of \<^const>\<open>unsorted_rows\<close> as objects and the array
  \<^verbatim>\<open>files\<close> at position 5, and the store that one call of the builder makes of it:
  position 6 is \<^verbatim>\<open>rootNodes\<close>, filled in the order 7, 9, 10 and sorted where it is;
  position 8 is the \<^verbatim>\<open>children\<close> of \<open>src\<close>, filled in the order 11, 13; the output
  is the array at position 21.
\<close>

definition unsorted_store :: store where
  "unsorted_store = [Obj (mk_file ''1'' ''b.js'' FILE None) None,
                     Obj (mk_file ''2'' ''src'' FOLDER None) None,
                     Obj (mk_file ''3'' ''a.js'' FILE None) None,
                     Obj (mk_file ''4'' ''z.ts'' FILE (Some ''2'')) None,
                     Obj (mk_file ''5'' ''lib'' FOLDER (Some ''2'')) None,
                     Arr [0, 1, 2, 3, 4]]"

definition unsorted_store_after :: store where
  "unsorted_store_after = unsorted_store @
     [Arr [9, 10, 7],
      Obj (mk_file ''1'' ''b.js'' FILE None) None,
      Arr [13, 11],
      Obj (mk_file ''2'' ''src'' FOLDER None) (Some 8),
      Obj (mk_file ''3'' ''a.js'' FILE None) None,
      Obj (mk_file ''4'' ''z.ts'' FILE (Some ''2'')) None,
      Arr [],
      Obj (mk_file ''5'' ''lib'' FOLDER (Some ''2'')) (Some 12),
      Arr [],
      Obj (mk_file ''5'' ''lib'' FOLDER (Some ''2'')) (Some 14),
      Obj (mk_file ''4'' ''z.ts'' FILE (Some ''2'')) None,
      Arr [15, 16],
      Obj (mk_file ''2'' ''src'' FOLDER None) (Some 17),
      Obj (mk_file ''3'' ''a.js'' FILE None) None,
      Obj (mk_file ''1'' ''b.js'' FILE None) None,
      Arr [18, 19, 20]]"

section \<open>Auxiliary facts\<close>

lemma decimal_digit: "n < 10 \<Longrightarrow> decimal n = [digit_char n]"
  by (simp add: decimal.simps)

lemma new_tab_id_1: "new_tab_id 1 = ''tab-1''"
  by (simp add: new_tab_id_def decimal_digit digit_char_def)

lemma new_tab_id_2: "new_tab_id 2 = ''tab-2''"
  by (simp add: new_tab_id_def decimal_digit digit_char_def)

lemma new_tab_id_3: "new_tab_id 3 = ''tab-3''"
  by (simp add: new_tab_id_def decimal_digit digit_char_def)

lemma distinct_map_nth_eq:
  assumes "distinct (map f xs)" "i < length xs" "j < length xs" "f (xs ! i) = f (xs ! j)"
  shows "i = j"
proof -
  have "map f xs ! i = map f xs ! j" using assms by simp
  moreover have "i < length (map f xs)" "j < length (map f xs)" using assms by simp_all
  ultimately show ?thesis using assms(1) nth_eq_iff_index_eq by blast
qed

lemma find_append:
  "find P (xs @ ys) = (case find P xs of None \<Rightarrow> find P ys | Some x \<Rightarrow> Some x)"
  by (induction xs) auto


lemma ids_map_upd: "(\<And>t. id_t (g t) = id_t t) \<Longrightarrow> map id_t (map g xs) = map id_t xs"
  by (induction xs) auto

lemma closeTab_tabs: "closeTab t s = Inr s' \<Longrightarrow> tabs s' = filter (\<lambda>u. id_t u \<noteq> t) (tabs s)"
  by (auto simp: closeTab_def Let_def split: if_splits)

section \<open>setActiveTab\<close>

text \<open>
  C2 (as the claim states it, refuted): with one open tab \<open>tab-1\<close>, active, a call
  \<open>setActiveTab(''tab-2'')\<close> for an id that no tab has is not a no-op: it stores the
  unknown id in \<open>activeTabId\<close> and clears the only \<open>isActive\<close> flag.
\<close>

theorem setActiveTab_unknown_id_counterexample:
  "map id_t (tabs \<lparr>tabs = [mk_tab ''tab-1'' ''f1'' ''a.js'' ''x'' False True],
                   activeTabId = Some ''tab-1'', selectedFile = None\<rparr>) = [''tab-1'']
   \<and> setActiveTab ''tab-2'' \<lparr>tabs = [mk_tab ''tab-1'' ''f1'' ''a.js'' ''x'' False True],
                   activeTabId = Some ''tab-1'', selectedFile = None\<rparr>
     = \<lparr>tabs = [mk_tab ''tab-1'' ''f1'' ''a.js'' ''x'' False False],
        activeTabId = Some ''tab-2'', selectedFile = None\<rparr>
   \<and> setActiveTab ''tab-2'' \<lparr>tabs = [mk_tab ''tab-1'' ''f1'' ''a.js'' ''x'' False True],
                   activeTabId = Some ''tab-1'', selectedFile = None\<rparr>
     \<noteq> \<lparr>tabs = [mk_tab ''tab-1'' ''f1'' ''a.js'' ''x'' False True],
                   activeTabId = Some ''tab-1'', selectedFile = None\<rparr>"
  by (simp add: setActiveTab_def mk_tab_def)

text \<open>
  C2 (amended): for every session and every \<open>tabId\<close>, \<open>setActiveTab(tabId)\<close> raises
  no error, stores \<open>tabId\<close> in \<open>activeTabId\<close>, leaves \<open>selectedFile\<close> and every
  other field of every tab as they were, and sets \<open>isActive\<close> to true on the tabs whose
  id is \<open>tabId\<close> and to false on all others. So when tab ids are distinct and some tab
  has the id, exactly that tab is flagged; and when no tab has the id, no tab is
  flagged any more and \<open>activeTabId\<close> holds the unknown id.
\<close>

theorem setActiveTab_flags:
  "activeTabId (setActiveTab tabId s) = Some tabId
   \<and> selectedFile (setActiveTab tabId s) = selectedFile s
   \<and> list_all2 (\<lambda>t t'. t' = t\<lparr>isActive := (id_t t = tabId)\<rparr>) (tabs s) (tabs (setActiveTab tabId s))
   \<and> (distinct (map id_t (tabs s)) \<and> tabId \<in> set (map id_t (tabs s)) \<longrightarrow>
        (\<exists>!i. i < length (tabs s) \<and> isActive (tabs (setActiveTab tabId s) ! i))
        \<and> (\<forall>i < length (tabs s). isActive (tabs (setActiveTab tabId s) ! i) = (id_t (tabs s ! i) = tabId)))
   \<and> (tabId \<notin> set (map id_t (tabs s)) \<longrightarrow>
        (\<forall>t \<in> set (tabs (setActiveTab tabId s)). \<not> isActive t))"
proof -
  let ?s' = "setActiveTab tabId s"
  have flags: "\<And>i. i < length (tabs s) \<Longrightarrow> isActive (tabs ?s' ! i) = (id_t (tabs s ! i) = tabId)"
    by (simp add: setActiveTab_def)
  have one: "\<exists>!i. i < length (tabs s) \<and> isActive (tabs ?s' ! i)"
    if d: "distinct (map id_t (tabs s))" and m: "tabId \<in> set (map id_t (tabs s))"
  proof -
    from m obtain i where i: "i < length (tabs s)" "id_t (tabs s ! i) = tabId"
      by (auto simp: in_set_conv_nth)
    show ?thesis
    proof (rule ex1I [of _ i])
      show "i < length (tabs s) \<and> isActive (tabs ?s' ! i)" using i flags by simp
    next
      fix j assume j: "j < length (tabs s) \<and> isActive (tabs ?s' ! j)"
      then have "id_t (tabs s ! j) = tabId" using flags [of j] by simp
      then show "j = i" using d i j distinct_map_nth_eq [of id_t "tabs s" j i] by simp
    qed
  qed
  have none: "\<forall>t \<in> set (tabs ?s'). \<not> isActive t" if "tabId \<notin> set (map id_t (tabs s))"
    using that by (auto simp: setActiveTab_def)
  have rel: "list_all2 (\<lambda>t t'. t' = t\<lparr>isActive := (id_t t = tabId)\<rparr>) (tabs s) (tabs ?s')"
    by (simp add: setActiveTab_def list_all2_conv_all_nth)
  show ?thesis
    using flags one none rel by (simp add: setActiveTab_def)
qed

theorem setActiveTab_flags_witness:
  "distinct (map id_t (tabs two_tabs))
   \<and> ''tab-2'' \<in> set (map id_t (tabs two_tabs))
   \<and> activeTabId (setActiveTab ''tab-2'' two_tabs) = Some ''tab-2''
   \<and> map isActive (tabs (setActiveTab ''tab-2'' two_tabs)) = [False, True]
   \<and> (\<exists>!i. i < length (tabs two_tabs) \<and> isActive (tabs (setActiveTab ''tab-2'' two_tabs) ! i))
   \<and> ''tab-9'' \<notin> set (map id_t (tabs two_tabs))
   \<and> list_all (\<lambda>t. \<not> isActive t) (tabs (setActiveTab ''tab-9'' two_tabs))"
proof -
  have h: "distinct (map id_t (tabs two_tabs)) \<and> ''tab-2'' \<in> set (map id_t (tabs two_tabs))"
    by (simp add: two_tabs_def mk_tab_def)
  have h9: "''tab-9'' \<notin> set (map id_t (tabs two_tabs))"
    by (simp add: two_tabs_def mk_tab_def)
  have c: "\<exists>!i. i < length (tabs two_tabs) \<and> isActive (tabs (setActiveTab ''tab-2'' two_tabs) ! i)"
    using setActiveTab_flags [of "''tab-2''" two_tabs] h by blast
  have c9: "list_all (\<lambda>t. \<not> isActive t) (tabs (setActiveTab ''tab-9'' two_tabs))"
    using setActiveTab_flags [of "''tab-9''" two_tabs] h9 by (simp add: list_all_iff)
  have e: "activeTabId (setActiveTab ''tab-2'' two_tabs) = Some ''tab-2''
     \<and> map isActive (tabs (setActiveTab ''tab-2'' two_tabs)) = [False, True]"
    by (simp add: two_tabs_def mk_tab_def setActiveTab_def)
  show ?thesis using h h9 c c9 e by blast
qed

section \<open>closeTab\<close>

lemma findIndex_first:
  "i < length xs \<Longrightarrow> P (xs ! i) \<Longrightarrow> \<forall>j<i. \<not> P (xs ! j) \<Longrightarrow> findIndex P xs = int i"
proof (induction xs arbitrary: i)
  case Nil then show ?case by simp
next
  case (Cons x xs)
  show ?case
  proof (cases i)
    case 0 then show ?thesis using Cons.prems by simp
  next
    case (Suc k)
    have "\<not> P x" using Cons.prems(3) Suc by auto
    moreover have "\<forall>j<k. \<not> P (xs ! j)"
    proof (intro allI impI)
      fix j assume "j < k"
      then have "\<not> P ((x # xs) ! Suc j)" using Cons.prems(3) Suc by blast
      then show "\<not> P (xs ! j)" by simp
    qed
    then have "findIndex P xs = int k"
      using Cons.IH [of k] Cons.prems Suc by simp
    ultimately show ?thesis using Suc by simp
  qed
qed

lemma findIndex_none: "\<forall>x\<in>set xs. \<not> P x \<Longrightarrow> findIndex P xs = -1"
  by (induction xs) auto

lemma filter_remove_distinct:
  "distinct (map f xs) \<Longrightarrow> i < length xs \<Longrightarrow>
   filter (\<lambda>t. f t \<noteq> f (xs ! i)) xs = take i xs @ drop (Suc i) xs"
proof (induction xs arbitrary: i)
  case Nil then show ?case by simp
next
  case (Cons x xs)
  show ?case
  proof (cases i)
    case 0
    have "f x \<notin> f ` set xs" using Cons.prems(1) by simp
    then have "\<forall>t\<in>set xs. f t \<noteq> f x" by (metis imageI)
    then have "filter (\<lambda>t. f t \<noteq> f x) xs = xs" by (simp add: filter_id_conv)
    then show ?thesis using 0 by simp
  next
    case (Suc k)
    have k: "k < length xs" using Cons.prems Suc by simp
    have "f x \<noteq> f (xs ! k)" using Cons.prems(1) k by auto
    then show ?thesis using Suc Cons.IH [of k] Cons.prems k by simp
  qed
qed

text \<open>
  What \<^verbatim>\<open>closeTab\<close> does to \<^verbatim>\<open>activeTabId\<close>. Let \<open>i\<close> be the index of the tab with id
  \<open>tabId\<close> (the first one, should ids repeat). Then \<open>closeTab(tabId)\<close> raises no error
  and removes the tab, keeping the others in order. If \<^verbatim>\<open>activeTabId\<close> named it and tabs
  remain, \<open>activeTabId\<close> becomes the id of the tab now at index \<open>i\<close>, or of the last
  tab when the removed one was last (\<open>min i (length - 1)\<close>); if no tab remains,
  \<open>activeTabId\<close> becomes null; closing another tab leaves \<open>activeTabId\<close> alone. With
  distinct tab ids the result is the list without its \<open>i\<close>-th element, and
  \<open>activeTabId\<close> then references exactly one remaining tab.
\<close>

lemma closeTab_activates_neighbour:
  assumes i: "i < length (tabs s)" "id_t (tabs s ! i) = tabId"
    and first: "\<forall>j<i. id_t (tabs s ! j) \<noteq> tabId"
  shows "\<exists>s'. closeTab tabId s = Inr s'
      \<and> tabs s' = filter (\<lambda>t. id_t t \<noteq> tabId) (tabs s)
      \<and> (activeTabId s = Some tabId \<and> tabs s' \<noteq> [] \<longrightarrow>
            activeTabId s' = Some (id_t (tabs s' ! min i (length (tabs s') - 1))))
      \<and> (activeTabId s \<noteq> Some tabId \<and> tabs s' \<noteq> [] \<longrightarrow> activeTabId s' = activeTabId s)
      \<and> (tabs s' = [] \<longrightarrow> activeTabId s' = None)
      \<and> (distinct (map id_t (tabs s)) \<longrightarrow>
            tabs s' = take i (tabs s) @ drop (Suc i) (tabs s)
            \<and> (activeTabId s = Some tabId \<and> 2 \<le> length (tabs s) \<longrightarrow>
                 (\<exists>!j. j < length (tabs s') \<and> activeTabId s' = Some (id_t (tabs s' ! j)))))"
proof -
  define newTabs where "newTabs = filter (\<lambda>t. id_t t \<noteq> tabId) (tabs s)"
  have idx: "findIndex (\<lambda>t. id_t t = tabId) (tabs s) = int i"
    using findIndex_first [of i "tabs s" "\<lambda>t. id_t t = tabId"] i first by simp
  have mn: "newTabs \<noteq> [] \<Longrightarrow> min (int i) (int (length newTabs) - 1) = int (min i (length newTabs - 1))"
    by (cases newTabs) auto
  obtain s' where s': "closeTab tabId s = Inr s'" and t': "tabs s' = newTabs"
    and a1: "activeTabId s = Some tabId \<and> newTabs \<noteq> [] \<longrightarrow>
               activeTabId s' = Some (id_t (newTabs ! min i (length newTabs - 1)))"
    and a2: "activeTabId s \<noteq> Some tabId \<and> newTabs \<noteq> [] \<longrightarrow> activeTabId s' = activeTabId s"
    and a3: "newTabs = [] \<longrightarrow> activeTabId s' = None"
  proof (cases "activeTabId s = Some tabId \<and> newTabs \<noteq> []")
    case True
    then show ?thesis
      using that [of "s\<lparr>tabs := newTabs, activeTabId := Some (id_t (newTabs ! min i (length newTabs - 1)))\<rparr>"]
        idx mn
      by (simp add: closeTab_def Let_def newTabs_def [symmetric])
  next
    case False
    show ?thesis
    proof (cases "newTabs = []")
      case True
      then show ?thesis
        using that [of "s\<lparr>tabs := newTabs, activeTabId := None, selectedFile := None\<rparr>"]
        by (simp add: closeTab_def Let_def newTabs_def [symmetric])
    next
      case ne: False
      then show ?thesis
        using that [of "s\<lparr>tabs := newTabs\<rparr>"] False
        by (simp add: closeTab_def Let_def newTabs_def [symmetric])
    qed
  qed
  have d: "tabs s' = take i (tabs s) @ drop (Suc i) (tabs s)
      \<and> (activeTabId s = Some tabId \<and> 2 \<le> length (tabs s) \<longrightarrow>
           (\<exists>!j. j < length (tabs s') \<and> activeTabId s' = Some (id_t (tabs s' ! j))))"
    if dist: "distinct (map id_t (tabs s))"
  proof -
    have shape: "newTabs = take i (tabs s) @ drop (Suc i) (tabs s)"
      using filter_remove_distinct [OF dist i(1)] i(2) by (simp add: newTabs_def)
    have dn: "distinct (map id_t newTabs)"
      using dist by (simp add: newTabs_def distinct_map_filter)
    have ex1: "\<exists>!j. j < length newTabs \<and> activeTabId s' = Some (id_t (newTabs ! j))"
      if act: "activeTabId s = Some tabId" and two: "2 \<le> length (tabs s)"
    proof -
      have len: "length newTabs = length (tabs s) - 1" using shape i(1) by simp
      then have ne: "newTabs \<noteq> []" using two by auto
      let ?k = "min i (length newTabs - 1)"
      have k: "?k < length newTabs" using ne by (cases newTabs) auto
      have ak: "activeTabId s' = Some (id_t (newTabs ! ?k))" using a1 act ne by simp
      show ?thesis
      proof (rule ex1I [of _ ?k])
        show "?k < length newTabs \<and> activeTabId s' = Some (id_t (newTabs ! ?k))" using k ak by simp
      next
        fix j assume "j < length newTabs \<and> activeTabId s' = Some (id_t (newTabs ! j))"
        then show "j = ?k" using ak k dn distinct_map_nth_eq [of id_t newTabs j ?k] by simp
      qed
    qed
    show ?thesis using shape ex1 t' by simp
  qed
  show ?thesis
  proof (intro exI [of _ s'] conjI)
    show "closeTab tabId s = Inr s'" by (rule s')
    show "tabs s' = filter (\<lambda>t. id_t t \<noteq> tabId) (tabs s)" using t' by (simp add: newTabs_def)
    show "activeTabId s = Some tabId \<and> tabs s' \<noteq> [] \<longrightarrow>
            activeTabId s' = Some (id_t (tabs s' ! min i (length (tabs s') - 1)))"
      using a1 t' by simp
    show "activeTabId s \<noteq> Some tabId \<and> tabs s' \<noteq> [] \<longrightarrow> activeTabId s' = activeTabId s"
      using a2 t' by simp
    show "tabs s' = [] \<longrightarrow> activeTabId s' = None" using a3 t' by simp
    show "distinct (map id_t (tabs s)) \<longrightarrow>
            tabs s' = take i (tabs s) @ drop (Suc i) (tabs s)
            \<and> (activeTabId s = Some tabId \<and> 2 \<le> length (tabs s) \<longrightarrow>
                 (\<exists>!j. j < length (tabs s') \<and> activeTabId s' = Some (id_t (tabs s' ! j))))"
      using d by blast
  qed
qed

lemma closeTab_activates_neighbour_example:
  "1 < length (tabs three_tabs) \<and> id_t (tabs three_tabs ! 1) = ''tab-2''
   \<and> id_t (tabs three_tabs ! 0) \<noteq> ''tab-2''
   \<and> distinct (map id_t (tabs three_tabs)) \<and> activeTabId three_tabs = Some ''tab-2''
   \<and> (\<exists>s'. closeTab ''tab-2'' three_tabs = Inr s'
         \<and> map id_t (tabs s') = [''tab-1'', ''tab-3''] \<and> activeTabId s' = Some ''tab-3''
         \<and> (\<exists>!j. j < length (tabs s') \<and> activeTabId s' = Some (id_t (tabs s' ! j))))"
proof -
  have h: "1 < length (tabs three_tabs)" "id_t (tabs three_tabs ! 1) = ''tab-2''"
    "id_t (tabs three_tabs ! 0) \<noteq> ''tab-2''" "distinct (map id_t (tabs three_tabs))"
    "activeTabId three_tabs = Some ''tab-2''" "2 \<le> length (tabs three_tabs)"
    by (simp_all add: three_tabs_def mk_tab_def)
  have first: "\<forall>j<1. id_t (tabs three_tabs ! j) \<noteq> ''tab-2''" using h(3) by simp
  from closeTab_activates_neighbour [OF h(1) h(2) first]
  obtain s' where s': "closeTab ''tab-2'' three_tabs = Inr s'"
    and t: "tabs s' = filter (\<lambda>t. id_t t \<noteq> ''tab-2'') (tabs three_tabs)"
    and a: "activeTabId three_tabs = Some ''tab-2'' \<and> tabs s' \<noteq> [] \<longrightarrow>
              activeTabId s' = Some (id_t (tabs s' ! min 1 (length (tabs s') - 1)))"
    and u: "distinct (map id_t (tabs three_tabs)) \<longrightarrow>
              tabs s' = take 1 (tabs three_tabs) @ drop (Suc 1) (tabs three_tabs)
              \<and> (activeTabId three_tabs = Some ''tab-2'' \<and> 2 \<le> length (tabs three_tabs) \<longrightarrow>
                   (\<exists>!j. j < length (tabs s') \<and> activeTabId s' = Some (id_t (tabs s' ! j))))"
    by blast
  have ids: "map id_t (tabs s') = [''tab-1'', ''tab-3'']"
    using t by (simp add: three_tabs_def mk_tab_def)
  have act: "activeTabId s' = Some ''tab-3''"
    using a h(5) t by (simp add: three_tabs_def mk_tab_def)
  have one: "\<exists>!j. j < length (tabs s') \<and> activeTabId s' = Some (id_t (tabs s' ! j))"
    using u h(4) h(5) h(6) by blast
  show ?thesis by (intro conjI exI [of _ s']) (rule h s' ids act one)+
qed

text \<open>
  When the tab to close is not open but \<^verbatim>\<open>activeTabId\<close>
  names it, and other tabs are open, the index is \<open>-1\<close> and the call raises.
\<close>

lemma closeTab_dangling_active:
  assumes "tabId \<notin> set (map id_t (tabs s))" "activeTabId s = Some tabId" "tabs s \<noteq> []"
  shows "closeTab tabId s = Inl TypeError"
proof -
  have none: "\<forall>t\<in>set (tabs s). \<not> id_t t = tabId" using assms(1) by auto
  then have keep: "filter (\<lambda>t. id_t t \<noteq> tabId) (tabs s) = tabs s" by (simp add: filter_id_conv)
  have "findIndex (\<lambda>t. id_t t = tabId) (tabs s) = -1" using none by (rule findIndex_none)
  then show ?thesis using assms(2,3) keep by (simp add: closeTab_def Let_def)
qed

text \<open>
  C3 (a defect of the code): the claim ends with exactly one remaining tab being
  active, and a tab of the data model is active when its \<^verbatim>\<open>isActive\<close> is true and
  \<^verbatim>\<open>activeTabId\<close> references it. \<^verbatim>\<open>closeTab\<close> moves \<^verbatim>\<open>activeTabId\<close> and never
  writes \<^verbatim>\<open>isActive\<close>, the flag that \<^verbatim>\<open>setActiveTab\<close> and the new-tab branch of
  \<^verbatim>\<open>openFile\<close> keep in step with it. Three files are opened and the second tab is
  made the active one: the session has one flag, on the tab that \<^verbatim>\<open>activeTabId\<close> names.
  Closing that tab leaves two tabs, \<^verbatim>\<open>activeTabId\<close> on the third, and no flag at all.
\<close>

theorem closeTab_leaves_no_flag:
  "run [OpenFile file_a 1 (FetchOk (Some ''x'')), OpenFile file_b 2 (FetchOk (Some ''y'')),
        OpenFile file_c 3 (FetchOk (Some ''z'')), SetActiveTab ''tab-2''] empty_session
     = Inr \<lparr>tabs = [mk_tab ''tab-1'' ''5'' ''a.js'' ''x'' False False,
                    mk_tab ''tab-2'' ''6'' ''b.js'' ''y'' False True,
                    mk_tab ''tab-3'' ''7'' ''c.js'' ''z'' False False],
            activeTabId = Some ''tab-2'', selectedFile = Some file_c\<rparr>
   \<and> session_invariant
         \<lparr>tabs = [mk_tab ''tab-1'' ''5'' ''a.js'' ''x'' False False,
                  mk_tab ''tab-2'' ''6'' ''b.js'' ''y'' False True,
                  mk_tab ''tab-3'' ''7'' ''c.js'' ''z'' False False],
          activeTabId = Some ''tab-2'', selectedFile = Some file_c\<rparr>
   \<and> closeTab ''tab-2''
         \<lparr>tabs = [mk_tab ''tab-1'' ''5'' ''a.js'' ''x'' False False,
                  mk_tab ''tab-2'' ''6'' ''b.js'' ''y'' False True,
                  mk_tab ''tab-3'' ''7'' ''c.js'' ''z'' False False],
          activeTabId = Some ''tab-2'', selectedFile = Some file_c\<rparr>
     = Inr \<lparr>tabs = [mk_tab ''tab-1'' ''5'' ''a.js'' ''x'' False False,
                    mk_tab ''tab-3'' ''7'' ''c.js'' ''z'' False False],
            activeTabId = Some ''tab-3'', selectedFile = Some file_c\<rparr>
   \<and> filter isActive [mk_tab ''tab-1'' ''5'' ''a.js'' ''x'' False False,
                        mk_tab ''tab-3'' ''7'' ''c.js'' ''z'' False False] = []
   \<and> \<not> session_invariant
         \<lparr>tabs = [mk_tab ''tab-1'' ''5'' ''a.js'' ''x'' False False,
                  mk_tab ''tab-3'' ''7'' ''c.js'' ''z'' False False],
          activeTabId = Some ''tab-3'', selectedFile = Some file_c\<rparr>"
  by (simp add: openFile_def closeTab_def setActiveTab_def empty_session_def file_a_def file_b_def
        file_c_def mk_file_def mk_tab_def new_tab_id_1 [unfolded One_nat_def] new_tab_id_2
        new_tab_id_3 Let_def session_invariant_def)

section \<open>saveFile\<close>

text \<open>
  C4: let \<open>tab\<close> be the tab that \<^verbatim>\<open>tabs.find(t => t.id === tabId)\<close> yields. If it
  is not dirty, \<open>saveFile\<close> sends nothing, raises nothing and leaves the session as
  it is. If it is dirty, one \<^verbatim>\<open>PATCH\<close> with its content is sent; when that answers
  ok, the tab (every tab with that id) gets \<open>isDirty = False\<close> and nothing else
  changes; when it answers not-ok or rejects, the promise rejects with the error and
  the session is exactly as before, so the tab is still dirty and still holds the
  edited content.
\<close>

theorem saveFile_outcomes:
  assumes found: "find (\<lambda>t. id_t t = tabId) (tabs s) = Some tab"
  shows "(\<not> isDirty tab \<longrightarrow> saveFile tabId resp s = ([], None, s))
    \<and> (isDirty tab \<and> resp = SaveOk \<longrightarrow>
         (\<exists>s'. saveFile tabId resp s = ([PATCH (fileId tab) (content tab)], None, s')
            \<and> list_all2 (\<lambda>t t'. t' = (if id_t t = tabId then t\<lparr>isDirty := False\<rparr> else t)) (tabs s) (tabs s')
            \<and> find (\<lambda>t. id_t t = tabId) (tabs s') = Some (tab\<lparr>isDirty := False\<rparr>)
            \<and> activeTabId s' = activeTabId s \<and> selectedFile s' = selectedFile s))
    \<and> (isDirty tab \<and> resp \<noteq> SaveOk \<longrightarrow>
         (\<exists>e. saveFile tabId resp s = ([PATCH (fileId tab) (content tab)], Some e, s)))"
proof -
  have keep: "find (\<lambda>t. id_t t = tabId)
                (map (\<lambda>t. if id_t t = tabId then t\<lparr>isDirty := False\<rparr> else t) xs)
              = map_option (\<lambda>t. t\<lparr>isDirty := False\<rparr>) (find (\<lambda>t. id_t t = tabId) xs)" for xs
    by (induction xs) auto
  show ?thesis
    using found keep [of "tabs s"]
    by (cases resp) (simp_all add: saveFile_def list_all2_conv_all_nth)
qed

lemma edited_session_eq:
  "edited_session = \<lparr>tabs = [mk_tab ''tab-1'' ''5'' ''a.js'' ''y'' True True],
                      activeTabId = Some ''tab-1'',
                      selectedFile = Some (mk_file ''5'' ''a.js'' FILE None)\<rparr>"
  by (simp add: edited_session_def openFile_def updateTabContent_def empty_session_def
      mk_file_def mk_tab_def new_tab_id_1 [unfolded One_nat_def])

theorem saveFile_outcomes_witness:
  "find (\<lambda>t. id_t t = ''tab-1'') (tabs edited_session) = Some (mk_tab ''tab-1'' ''5'' ''a.js'' ''y'' True True)
   \<and> isDirty (mk_tab ''tab-1'' ''5'' ''a.js'' ''y'' True True)
   \<and> saveFile ''tab-1'' SaveNotOk edited_session = ([PATCH ''5'' ''y''], Some SaveFailed, edited_session)
   \<and> saveFile ''tab-1'' SaveRejected edited_session = ([PATCH ''5'' ''y''], Some NetworkError, edited_session)
   \<and> (\<exists>s'. saveFile ''tab-1'' SaveOk edited_session = ([PATCH ''5'' ''y''], None, s')
          \<and> tabs s' = [mk_tab ''tab-1'' ''5'' ''a.js'' ''y'' False True]
          \<and> saveFile ''tab-1'' SaveOk s' = ([], None, s'))"
proof -
  let ?tab = "mk_tab ''tab-1'' ''5'' ''a.js'' ''y'' True True"
  have f: "find (\<lambda>t. id_t t = ''tab-1'') (tabs edited_session) = Some ?tab"
    by (simp add: edited_session_eq mk_tab_def)
  have d: "isDirty ?tab" by (simp add: mk_tab_def)
  have fld: "fileId ?tab = ''5''" "content ?tab = ''y''" by (simp_all add: mk_tab_def)
  from saveFile_outcomes [OF f, of SaveNotOk] d fld
  obtain e1 where e1: "saveFile ''tab-1'' SaveNotOk edited_session = ([PATCH ''5'' ''y''], Some e1, edited_session)"
    by auto
  then have n: "saveFile ''tab-1'' SaveNotOk edited_session = ([PATCH ''5'' ''y''], Some SaveFailed, edited_session)"
    using f d by (simp add: saveFile_def)
  from saveFile_outcomes [OF f, of SaveRejected] d fld
  obtain e2 where e2: "saveFile ''tab-1'' SaveRejected edited_session = ([PATCH ''5'' ''y''], Some e2, edited_session)"
    by auto
  then have r: "saveFile ''tab-1'' SaveRejected edited_session = ([PATCH ''5'' ''y''], Some NetworkError, edited_session)"
    using f d by (simp add: saveFile_def)
  from saveFile_outcomes [OF f, of SaveOk] d fld
  obtain s' where s': "saveFile ''tab-1'' SaveOk edited_session = ([PATCH ''5'' ''y''], None, s')"
    and l: "list_all2 (\<lambda>t t'. t' = (if id_t t = ''tab-1'' then t\<lparr>isDirty := False\<rparr> else t)) (tabs edited_session) (tabs s')"
    and f': "find (\<lambda>t. id_t t = ''tab-1'') (tabs s') = Some (?tab\<lparr>isDirty := False\<rparr>)"
    by auto
  have t': "tabs s' = [mk_tab ''tab-1'' ''5'' ''a.js'' ''y'' False True]"
    using l by (simp add: edited_session_eq mk_tab_def list_all2_Cons1)
  have c: "\<not> isDirty (?tab\<lparr>isDirty := False\<rparr>)" by simp
  have again: "saveFile ''tab-1'' SaveOk s' = ([], None, s')"
    using saveFile_outcomes [OF f', of SaveOk] c by blast
  show ?thesis
    by (intro conjI exI [of _ s']) (rule f d n r s' t' again)+
qed

section \<open>openFile\<close>

lemma find_fileId_iff:
  "(find (\<lambda>t. fileId t = f) xs \<noteq> None) = (1 \<le> length (filter (\<lambda>t. fileId t = f) xs))"
  by (induction xs) auto

lemma count_fileId_map:
  assumes "\<And>t. fileId (g t) = fileId t"
  shows "length (filter (\<lambda>t. fileId t = f) (map g xs)) = length (filter (\<lambda>t. fileId t = f) xs)"
  by (induction xs) (auto simp: assms)

lemma openFile_count:
  assumes "openFile g now r s = (q, s')"
  shows "(1 \<le> length (filter (\<lambda>t. fileId t = f) (tabs s)) \<longrightarrow>
            length (filter (\<lambda>t. fileId t = f) (tabs s')) = length (filter (\<lambda>t. fileId t = f) (tabs s)))
       \<and> length (filter (\<lambda>t. fileId t = f) (tabs s')) \<le> max 1 (length (filter (\<lambda>t. fileId t = f) (tabs s)))"
proof -
  have deact: "length (filter (\<lambda>t. fileId t = f) (map (\<lambda>t. t\<lparr>isActive := False\<rparr>) xs))
      = length (filter (\<lambda>t. fileId t = f) xs)" for xs
    by (rule count_fileId_map) simp
  show ?thesis
  proof (cases "type_f g = FOLDER \<or> find (\<lambda>t. fileId t = id_f g) (tabs s) \<noteq> None \<or> (\<forall>c. r \<noteq> FetchOk c)")
    case True
    then have "tabs s' = tabs s"
      using assms by (auto simp: openFile_def split: option.splits if_splits fetch_response.splits)
    then show ?thesis by simp
  next
    case False
    then obtain c where c: "r = FetchOk c" and nf: "find (\<lambda>t. fileId t = id_f g) (tabs s) = None"
      and ty: "type_f g \<noteq> FOLDER" by auto
    obtain nt where nt: "tabs s' = map (\<lambda>t. t\<lparr>isActive := False\<rparr>) (tabs s) @ [nt]" "fileId nt = id_f g"
      using assms c nf ty by (auto simp: openFile_def Let_def)
    show ?thesis
    proof (cases "f = id_f g")
      case True
      then have "filter (\<lambda>t. fileId t = f) (tabs s) = []"
        using nf by (simp add: find_None_iff filter_empty_conv)
      then show ?thesis using nt True deact [of "tabs s"] by simp
    next
      case False
      then show ?thesis using nt deact [of "tabs s"] by simp
    qed
  qed
qed

lemma apply_op_count:
  assumes "\<not> is_close x"
  shows "\<exists>s'. apply_op x s = Inr s'
       \<and> (1 \<le> length (filter (\<lambda>t. fileId t = f) (tabs s)) \<longrightarrow>
            length (filter (\<lambda>t. fileId t = f) (tabs s')) = length (filter (\<lambda>t. fileId t = f) (tabs s)))
       \<and> length (filter (\<lambda>t. fileId t = f) (tabs s')) \<le> max 1 (length (filter (\<lambda>t. fileId t = f) (tabs s)))"
proof (cases x)
  case (OpenFile g now r)
  then show ?thesis
    using openFile_count [of g now r s "fst (openFile g now r s)" "snd (openFile g now r s)" f] by simp
next
  case (CloseTab t)
  then show ?thesis using assms by simp
next
  case (SetActiveTab t)
  have "length (filter (\<lambda>t. fileId t = f) (map (\<lambda>u. u\<lparr>isActive := (id_t u = t)\<rparr>) (tabs s)))
      = length (filter (\<lambda>t. fileId t = f) (tabs s))"
    by (rule count_fileId_map) simp
  then show ?thesis using SetActiveTab by (simp add: setActiveTab_def del: filter_map)
next
  case (UpdateTabContent t c)
  have "length (filter (\<lambda>t. fileId t = f) (map (\<lambda>u. if id_t u = t then u\<lparr>content := c, isDirty := True\<rparr> else u) (tabs s)))
      = length (filter (\<lambda>t. fileId t = f) (tabs s))"
    by (rule count_fileId_map) simp
  then show ?thesis using UpdateTabContent by (simp add: updateTabContent_def del: filter_map)
next
  case (SaveFile t r)
  have "length (filter (\<lambda>t. fileId t = f) (map (\<lambda>u. if id_t u = t then u\<lparr>isDirty := False\<rparr> else u) (tabs s)))
      = length (filter (\<lambda>t. fileId t = f) (tabs s))"
    by (rule count_fileId_map) simp
  then show ?thesis using SaveFile
    by (cases r) (auto simp: saveFile_def simp del: filter_map split: option.splits)
qed

lemma run_count:
  assumes "list_all (\<lambda>x. \<not> is_close x) xs"
  shows "\<exists>s'. run xs s = Inr s'
       \<and> (1 \<le> length (filter (\<lambda>t. fileId t = f) (tabs s)) \<longrightarrow>
            length (filter (\<lambda>t. fileId t = f) (tabs s')) = length (filter (\<lambda>t. fileId t = f) (tabs s)))
       \<and> length (filter (\<lambda>t. fileId t = f) (tabs s')) \<le> max 1 (length (filter (\<lambda>t. fileId t = f) (tabs s)))"
  using assms
proof (induction xs arbitrary: s)
  case Nil
  then show ?case by simp
next
  case (Cons x xs)
  then have nc: "\<not> is_close x" and rest: "list_all (\<lambda>x. \<not> is_close x) xs" by simp_all
  from apply_op_count [OF nc, of s f] obtain s1 where s1: "apply_op x s = Inr s1"
    and k1: "1 \<le> length (filter (\<lambda>t. fileId t = f) (tabs s)) \<longrightarrow>
            length (filter (\<lambda>t. fileId t = f) (tabs s1)) = length (filter (\<lambda>t. fileId t = f) (tabs s))"
    and b1: "length (filter (\<lambda>t. fileId t = f) (tabs s1)) \<le> max 1 (length (filter (\<lambda>t. fileId t = f) (tabs s)))"
    by blast
  from Cons.IH [OF rest, of s1] obtain s' where s': "run xs s1 = Inr s'"
    and k2: "1 \<le> length (filter (\<lambda>t. fileId t = f) (tabs s1)) \<longrightarrow>
            length (filter (\<lambda>t. fileId t = f) (tabs s')) = length (filter (\<lambda>t. fileId t = f) (tabs s1))"
    and b2: "length (filter (\<lambda>t. fileId t = f) (tabs s')) \<le> max 1 (length (filter (\<lambda>t. fileId t = f) (tabs s1)))"
    by blast
  have "run (x # xs) s = Inr s'" using s1 s' by simp
  moreover have "1 \<le> length (filter (\<lambda>t. fileId t = f) (tabs s)) \<longrightarrow>
            length (filter (\<lambda>t. fileId t = f) (tabs s')) = length (filter (\<lambda>t. fileId t = f) (tabs s))"
    using k1 k2 by simp
  moreover have "length (filter (\<lambda>t. fileId t = f) (tabs s')) \<le> max 1 (length (filter (\<lambda>t. fileId t = f) (tabs s)))"
    using b1 b2 by (simp add: max_def split: if_splits)
  ultimately show ?case by blast
qed

text \<open>
  Opening a file twice. \<open>openFile\<close> is called for a FILE record, then any calls that
  close no tab are made, then \<open>openFile\<close> is called for the same record again. The
  number of tabs with that \<open>fileId\<close> ends at most at one (or at what it was, had the
  session held several before). And if a tab for the file was there before the first
  call, or the first call's fetch answered ok, then the second call finds that tab,
  sends no request, leaves the list of tabs as it is (nothing appended, and no field of
  a tab written) and sets \<open>activeTabId\<close> to its id.
\<close>

lemma openFile_twice:
  assumes isfile: "type_f file = FILE"
    and first: "openFile file now1 resp1 s = (r1, s1)"
    and between: "list_all (\<lambda>x. \<not> is_close x) ops" "run ops s1 = Inr s1'"
    and second: "openFile file now2 resp2 s1' = (r2, s2)"
  shows "length (filter (\<lambda>t. fileId t = id_f file) (tabs s2))
           \<le> max 1 (length (filter (\<lambda>t. fileId t = id_f file) (tabs s)))
    \<and> (find (\<lambda>t. fileId t = id_f file) (tabs s) \<noteq> None \<or> (\<exists>c. resp1 = FetchOk c) \<longrightarrow>
         (\<exists>existingTab. find (\<lambda>t. fileId t = id_f file) (tabs s1') = Some existingTab
            \<and> r2 = [] \<and> tabs s2 = tabs s1' \<and> activeTabId s2 = Some (id_t existingTab)
            \<and> selectedFile s2 = Some file))"
proof -
  let ?n = "\<lambda>u. length (filter (\<lambda>t. fileId t = id_f file) (tabs u))"
  note c1 = openFile_count [OF first, of "id_f file"]
  from run_count [OF between(1), of s1 "id_f file"] between(2)
  have c2: "(1 \<le> ?n s1 \<longrightarrow> ?n s1' = ?n s1) \<and> ?n s1' \<le> max 1 (?n s1)" by simp
  note c3 = openFile_count [OF second, of "id_f file"]
  have bound: "?n s2 \<le> max 1 (?n s)"
    using c1 c2 c3 by (simp add: max_def split: if_splits)
  have created: "1 \<le> ?n s1" if h: "find (\<lambda>t. fileId t = id_f file) (tabs s) \<noteq> None \<or> (\<exists>c. resp1 = FetchOk c)"
  proof (cases "find (\<lambda>t. fileId t = id_f file) (tabs s)")
    case (Some t0)
    then have "1 \<le> ?n s" using find_fileId_iff [of "id_f file" "tabs s"] by simp
    then show ?thesis using c1 by simp
  next
    case None
    then obtain c where "resp1 = FetchOk c" using h by auto
    then show ?thesis using first isfile None by (auto simp: openFile_def Let_def)
  qed
  have reuse: "\<exists>existingTab. find (\<lambda>t. fileId t = id_f file) (tabs s1') = Some existingTab
            \<and> r2 = [] \<and> tabs s2 = tabs s1' \<and> activeTabId s2 = Some (id_t existingTab)
            \<and> selectedFile s2 = Some file"
    if "find (\<lambda>t. fileId t = id_f file) (tabs s) \<noteq> None \<or> (\<exists>c. resp1 = FetchOk c)"
  proof -
    have "1 \<le> ?n s1'" using created [OF that] c2 by simp
    then obtain e where e: "find (\<lambda>t. fileId t = id_f file) (tabs s1') = Some e"
      using find_fileId_iff [of "id_f file" "tabs s1'"] by auto
    then show ?thesis using second isfile by (auto simp: openFile_def)
  qed
  show ?thesis using bound reuse by blast
qed

lemma first_open_a:
  "openFile file_a 1 (FetchOk (Some ''x'')) empty_session
   = ([GET ''5''], \<lparr>tabs = [mk_tab ''tab-1'' ''5'' ''a.js'' ''x'' False True],
                    activeTabId = Some ''tab-1'', selectedFile = Some file_a\<rparr>)"
  by (simp add: openFile_def empty_session_def file_a_def mk_file_def mk_tab_def
      new_tab_id_1 [unfolded One_nat_def])

lemma run_ops_between:
  "run ops_between \<lparr>tabs = [mk_tab ''tab-1'' ''5'' ''a.js'' ''x'' False True],
                    activeTabId = Some ''tab-1'', selectedFile = Some file_a\<rparr>
   = Inr \<lparr>tabs = [mk_tab ''tab-1'' ''5'' ''a.js'' ''y'' True False,
                  mk_tab ''tab-2'' ''6'' ''b.js'' ''z'' False True],
          activeTabId = Some ''tab-2'', selectedFile = Some file_b\<rparr>"
  by (simp add: ops_between_def openFile_def updateTabContent_def file_b_def mk_file_def mk_tab_def
      new_tab_id_2)

lemma openFile_twice_example:
  "type_f file_a = FILE
   \<and> openFile file_a 1 (FetchOk (Some ''x'')) empty_session
       = ([GET ''5''], \<lparr>tabs = [mk_tab ''tab-1'' ''5'' ''a.js'' ''x'' False True],
                        activeTabId = Some ''tab-1'', selectedFile = Some file_a\<rparr>)
   \<and> list_all (\<lambda>x. \<not> is_close x) ops_between
   \<and> run ops_between \<lparr>tabs = [mk_tab ''tab-1'' ''5'' ''a.js'' ''x'' False True],
                    activeTabId = Some ''tab-1'', selectedFile = Some file_a\<rparr>
       = Inr \<lparr>tabs = [mk_tab ''tab-1'' ''5'' ''a.js'' ''y'' True False,
                      mk_tab ''tab-2'' ''6'' ''b.js'' ''z'' False True],
              activeTabId = Some ''tab-2'', selectedFile = Some file_b\<rparr>
   \<and> openFile file_a 3 (FetchOk (Some ''w''))
         \<lparr>tabs = [mk_tab ''tab-1'' ''5'' ''a.js'' ''y'' True False,
                  mk_tab ''tab-2'' ''6'' ''b.js'' ''z'' False True],
          activeTabId = Some ''tab-2'', selectedFile = Some file_b\<rparr>
       = ([], \<lparr>tabs = [mk_tab ''tab-1'' ''5'' ''a.js'' ''y'' True False,
                      mk_tab ''tab-2'' ''6'' ''b.js'' ''z'' False True],
              activeTabId = Some ''tab-1'', selectedFile = Some file_a\<rparr>)"
proof -
  let ?s1 = "\<lparr>tabs = [mk_tab ''tab-1'' ''5'' ''a.js'' ''x'' False True],
              activeTabId = Some ''tab-1'', selectedFile = Some file_a\<rparr>"
  let ?s1' = "\<lparr>tabs = [mk_tab ''tab-1'' ''5'' ''a.js'' ''y'' True False,
                      mk_tab ''tab-2'' ''6'' ''b.js'' ''z'' False True],
               activeTabId = Some ''tab-2'', selectedFile = Some file_b\<rparr>"
  have ty: "type_f file_a = FILE" by (simp add: file_a_def mk_file_def)
  have nc: "list_all (\<lambda>x. \<not> is_close x) ops_between" by (simp add: ops_between_def)
  obtain r2 s2 where second: "openFile file_a 3 (FetchOk (Some ''w'')) ?s1' = (r2, s2)"
    by (cases "openFile file_a 3 (FetchOk (Some ''w'')) ?s1'") blast
  have fnd: "find (\<lambda>t. fileId t = id_f file_a) (tabs ?s1') = Some (mk_tab ''tab-1'' ''5'' ''a.js'' ''y'' True False)"
    by (simp add: file_a_def mk_file_def mk_tab_def)
  from openFile_twice [OF ty first_open_a nc run_ops_between second]
  have parts: "r2 = [] \<and> tabs s2 = tabs ?s1' \<and> activeTabId s2 = Some ''tab-1'' \<and> selectedFile s2 = Some file_a"
    using fnd by (simp add: mk_tab_def)
  then have r2: "r2 = []" by simp
  have "s2 = \<lparr>tabs = tabs ?s1', activeTabId = Some ''tab-1'', selectedFile = Some file_a\<rparr>"
    using parts by (cases s2) simp
  with r2 have "openFile file_a 3 (FetchOk (Some ''w'')) ?s1'
       = ([], \<lparr>tabs = tabs ?s1', activeTabId = Some ''tab-1'', selectedFile = Some file_a\<rparr>)"
    using second by simp
  then show ?thesis using ty nc first_open_a run_ops_between by simp
qed

text \<open>
  C5 (a defect of the code): the second invocation is to mark the existing tab active,
  and a tab of the data model is active when its \<^verbatim>\<open>isActive\<close> is true and
  \<^verbatim>\<open>activeTabId\<close> references it. The existing-tab branch of \<^verbatim>\<open>openFile\<close> calls
  \<^verbatim>\<open>setActiveTabId\<close> and returns; the new-tab branch of the same function and
  \<^verbatim>\<open>setActiveTab\<close> also write the flags. \<open>a.js\<close> and \<open>b.js\<close> are opened: one flag, on
  the second tab, which \<^verbatim>\<open>activeTabId\<close> names. Opening \<open>a.js\<close> again sends no request
  and appends nothing, puts \<^verbatim>\<open>activeTabId\<close> on the first tab, and leaves the flag of
  the first tab false and that of the second true.
\<close>

theorem openFile_again_leaves_flags:
  "run [OpenFile file_a 1 (FetchOk (Some ''x'')), OpenFile file_b 2 (FetchOk (Some ''z''))]
       empty_session
     = Inr \<lparr>tabs = [mk_tab ''tab-1'' ''5'' ''a.js'' ''x'' False False,
                    mk_tab ''tab-2'' ''6'' ''b.js'' ''z'' False True],
            activeTabId = Some ''tab-2'', selectedFile = Some file_b\<rparr>
   \<and> session_invariant
         \<lparr>tabs = [mk_tab ''tab-1'' ''5'' ''a.js'' ''x'' False False,
                  mk_tab ''tab-2'' ''6'' ''b.js'' ''z'' False True],
          activeTabId = Some ''tab-2'', selectedFile = Some file_b\<rparr>
   \<and> openFile file_a 3 (FetchOk (Some ''x''))
         \<lparr>tabs = [mk_tab ''tab-1'' ''5'' ''a.js'' ''x'' False False,
                  mk_tab ''tab-2'' ''6'' ''b.js'' ''z'' False True],
          activeTabId = Some ''tab-2'', selectedFile = Some file_b\<rparr>
     = ([], \<lparr>tabs = [mk_tab ''tab-1'' ''5'' ''a.js'' ''x'' False False,
                      mk_tab ''tab-2'' ''6'' ''b.js'' ''z'' False True],
              activeTabId = Some ''tab-1'', selectedFile = Some file_a\<rparr>)
   \<and> filter isActive [mk_tab ''tab-1'' ''5'' ''a.js'' ''x'' False False,
                        mk_tab ''tab-2'' ''6'' ''b.js'' ''z'' False True]
     = [mk_tab ''tab-2'' ''6'' ''b.js'' ''z'' False True]
   \<and> \<not> session_invariant
         \<lparr>tabs = [mk_tab ''tab-1'' ''5'' ''a.js'' ''x'' False False,
                  mk_tab ''tab-2'' ''6'' ''b.js'' ''z'' False True],
          activeTabId = Some ''tab-1'', selectedFile = Some file_a\<rparr>"
  by (simp add: openFile_def empty_session_def file_a_def file_b_def mk_file_def mk_tab_def
        new_tab_id_1 [unfolded One_nat_def] new_tab_id_2 Let_def session_invariant_def)

section \<open>The session invariant\<close>










lemmas session_eval = openFile_def closeTab_def setActiveTab_def updateTabContent_def saveFile_def
  empty_session_def file_a_def file_b_def mk_file_def mk_tab_def
  new_tab_id_1 [unfolded One_nat_def] new_tab_id_2 Let_def




section \<open>The dirty flag\<close>

lemma fileIds_map_upd: "(\<And>t. fileId (g t) = fileId t) \<Longrightarrow> map fileId (map g xs) = map fileId xs"
  by (induction xs) auto

lemma distinct_map_inj:
  "distinct (map f xs) \<Longrightarrow> x \<in> set xs \<Longrightarrow> y \<in> set xs \<Longrightarrow> f x = f y \<Longrightarrow> x = y"
  by (auto simp: distinct_map inj_on_def)

lemma dirty_inv_other_upd:
  "dirty_inv s p \<Longrightarrow> tabs s' = tabs s \<Longrightarrow> dirty_inv s' p"
  by (simp add: dirty_inv_def clean_is_persisted_def)

lemma openFile_dirty_inv:
  assumes inv: "dirty_inv s p" and fresh: "new_tab_id now \<notin> set (map id_t (tabs s))"
  shows "dirty_inv (snd (openFile f now r s)) (store_after (OpenFile f now r) s p)"
proof (cases "type_f f = FOLDER \<or> find (\<lambda>t. fileId t = id_f f) (tabs s) \<noteq> None")
  case True
  then have "tabs (snd (openFile f now r s)) = tabs s" "fst (openFile f now r s) = []"
    by (auto simp: openFile_def)
  then show ?thesis using inv by (simp add: dirty_inv_other_upd)
next
  case False
  then have nf: "type_f f \<noteq> FOLDER" and none: "find (\<lambda>t. fileId t = id_f f) (tabs s) = None" by auto
  have nofile: "id_f f \<notin> set (map fileId (tabs s))"
    using none by (auto simp: find_None_iff)
  show ?thesis
  proof (cases "\<exists>c. r = FetchOk c")
    case False
    then have "snd (openFile f now r s) = s" "store_after (OpenFile f now r) s p = p"
      using nf none by (cases r; simp add: openFile_def)+
    then show ?thesis using inv by simp
  next
    case True
    then obtain c where c: "r = FetchOk c" by blast
    define body where "body = (case c of None \<Rightarrow> [] | Some x \<Rightarrow> x)"
    define newTab where "newTab = \<lparr>id_t = new_tab_id now, fileId = id_f f, name_t = name_f f,
        path_t = path_f f, content = body, extension_t = extension_f f, isDirty = False, isActive = True\<rparr>"
    define old where "old = map (\<lambda>t. t\<lparr>isActive := False\<rparr>) (tabs s)"
    have t': "tabs (snd (openFile f now r s)) = old @ [newTab]"
      using nf none c by (simp add: openFile_def Let_def newTab_def body_def old_def)
    have p': "store_after (OpenFile f now r) s p = p(id_f f \<mapsto> body)"
      using nf none c by (simp add: openFile_def Let_def body_def)
    have ids: "map id_t old = map id_t (tabs s)" unfolding old_def by (rule ids_map_upd) simp
    have fids: "map fileId old = map fileId (tabs s)" unfolding old_def by (rule fileIds_map_upd) simp
    have d1: "distinct (map id_t (old @ [newTab]))"
      using inv fresh ids by (simp add: dirty_inv_def newTab_def)
    have d2: "distinct (map fileId (old @ [newTab]))"
      using inv nofile fids by (simp add: dirty_inv_def newTab_def)
    have cl: "isDirty u \<or> (p(id_f f \<mapsto> body)) (fileId u) = Some (content u)" if u: "u \<in> set (old @ [newTab])" for u
    proof (cases "u = newTab")
      case True then show ?thesis by (simp add: newTab_def)
    next
      case False
      then obtain v where v: "v \<in> set (tabs s)" "u = v\<lparr>isActive := False\<rparr>" using u by (auto simp: old_def)
      then have "fileId v \<in> set (map fileId (tabs s))" by simp
      then have "fileId v \<noteq> id_f f" using nofile by metis
      moreover have "isDirty v \<or> p (fileId v) = Some (content v)"
        using inv v(1) by (auto simp: dirty_inv_def clean_is_persisted_def list_all_iff)
      ultimately show ?thesis using v(2) by auto
    qed
    show ?thesis
      unfolding dirty_inv_def clean_is_persisted_def list_all_iff t' p'
      using d1 d2 cl by blast
  qed
qed

lemma saveFile_dirty_inv:
  assumes inv: "dirty_inv s p"
  shows "dirty_inv (snd (snd (saveFile t r s))) (store_after (SaveFile t r) s p)"
proof (cases "find (\<lambda>u. id_t u = t) (tabs s)")
  case None
  then show ?thesis using inv by (simp add: saveFile_def)
next
  case (Some tab)
  show ?thesis
  proof (cases "isDirty tab \<and> r = SaveOk")
    case False
    then have "snd (snd (saveFile t r s)) = s" "store_after (SaveFile t r) s p = p"
      using Some by (cases r; simp add: saveFile_def)+
    then show ?thesis using inv by simp
  next
    case True
    define new where "new = map (\<lambda>u. if id_t u = t then u\<lparr>isDirty := False\<rparr> else u) (tabs s)"
    have s': "snd (snd (saveFile t r s)) = s\<lparr>tabs := new\<rparr>"
      using Some True by (simp add: saveFile_def new_def)
    have p': "store_after (SaveFile t r) s p = p(fileId tab \<mapsto> content tab)"
      using Some True by (simp add: saveFile_def)
    have tab: "tab \<in> set (tabs s)" "id_t tab = t" using Some by (auto simp: find_Some_iff)
    have ids: "map id_t new = map id_t (tabs s)" unfolding new_def by (rule ids_map_upd) simp
    have fids: "map fileId new = map fileId (tabs s)" unfolding new_def by (rule fileIds_map_upd) simp
    have di: "distinct (map id_t (tabs s))" and df: "distinct (map fileId (tabs s))"
      using inv by (simp_all add: dirty_inv_def)
    have cl: "isDirty u \<or> (p(fileId tab \<mapsto> content tab)) (fileId u) = Some (content u)"
      if u: "u \<in> set new" for u
    proof -
      from u obtain v where v: "v \<in> set (tabs s)" "u = (if id_t v = t then v\<lparr>isDirty := False\<rparr> else v)"
        by (auto simp: new_def)
      show ?thesis
      proof (cases "id_t v = t")
        case True
        then have "v = tab" using distinct_map_inj [OF di v(1) tab(1)] tab(2) by simp
        then show ?thesis using v(2) True by simp
      next
        case False
        then have "v \<noteq> tab" using tab by auto
        then have "fileId v \<noteq> fileId tab" using distinct_map_inj [OF df v(1) tab(1)] by blast
        moreover have "isDirty v \<or> p (fileId v) = Some (content v)"
          using inv v(1) by (auto simp: dirty_inv_def clean_is_persisted_def list_all_iff)
        ultimately show ?thesis using v(2) False by auto
      qed
    qed
    show ?thesis
      unfolding s' p' dirty_inv_def clean_is_persisted_def list_all_iff
      using ids fids di df cl by simp
  qed
qed

lemma apply_op_dirty_inv:
  assumes inv: "dirty_inv s p" and fresh: "fresh_id x s" and step: "apply_op x s = Inr s'"
  shows "dirty_inv s' (store_after x s p)"
proof (cases x)
  case (OpenFile f now r)
  then show ?thesis using openFile_dirty_inv [OF inv, of now f r] fresh step by auto
next
  case (CloseTab t)
  then have "tabs s' = filter (\<lambda>u. id_t u \<noteq> t) (tabs s)" using step closeTab_tabs by simp
  then show ?thesis using inv CloseTab
    by (auto simp: dirty_inv_def clean_is_persisted_def list_all_iff distinct_map_filter)
next
  case (SetActiveTab t)
  define new where "new = map (\<lambda>u. u\<lparr>isActive := (id_t u = t)\<rparr>) (tabs s)"
  have "map id_t new = map id_t (tabs s)" unfolding new_def by (rule ids_map_upd) simp
  moreover have "map fileId new = map fileId (tabs s)" unfolding new_def by (rule fileIds_map_upd) simp
  moreover have "\<forall>u\<in>set new. isDirty u \<or> p (fileId u) = Some (content u)"
    using inv by (auto simp: new_def dirty_inv_def clean_is_persisted_def list_all_iff)
  moreover have "tabs s' = new" using step SetActiveTab by (auto simp: setActiveTab_def new_def)
  ultimately show ?thesis using inv SetActiveTab
    by (simp add: dirty_inv_def clean_is_persisted_def list_all_iff)
next
  case (UpdateTabContent t c)
  define new where "new = map (\<lambda>u. if id_t u = t then u\<lparr>content := c, isDirty := True\<rparr> else u) (tabs s)"
  have "map id_t new = map id_t (tabs s)" unfolding new_def by (rule ids_map_upd) simp
  moreover have "map fileId new = map fileId (tabs s)" unfolding new_def by (rule fileIds_map_upd) simp
  moreover have "\<forall>u\<in>set new. isDirty u \<or> p (fileId u) = Some (content u)"
    using inv by (auto simp: new_def dirty_inv_def clean_is_persisted_def list_all_iff)
  moreover have "tabs s' = new" using step UpdateTabContent by (auto simp: updateTabContent_def new_def)
  ultimately show ?thesis using inv UpdateTabContent
    by (simp add: dirty_inv_def clean_is_persisted_def list_all_iff)
next
  case (SaveFile t r)
  then show ?thesis using saveFile_dirty_inv [OF inv, of t r] step by auto
qed

lemma run_dirty_inv:
  assumes "dirty_inv s p" "all_along fresh_id ops s" "run ops s = Inr s'"
  shows "dirty_inv s' (run_store ops s p)"
  using assms
proof (induction ops arbitrary: s p)
  case Nil then show ?case by simp
next
  case (Cons x xs)
  from Cons.prems(3) obtain s1 where s1: "apply_op x s = Inr s1" "run xs s1 = Inr s'"
    by (auto split: sum.splits)
  have fr: "fresh_id x s" "all_along fresh_id xs s1" using Cons.prems(2) s1 by simp_all
  have inv1: "dirty_inv s1 (store_after x s p)"
    by (rule apply_op_dirty_inv [OF Cons.prems(1) fr(1) s1(1)])
  have "dirty_inv s' (run_store xs s1 (store_after x s p))"
    by (rule Cons.IH [OF inv1 fr(2) s1(2)])
  then show ?case using s1(1) by simp
qed

text \<open>
  C9 (as the claim states it, refuted): a file with stored content \<open>x\<close> is opened,
  edited to \<open>y\<close> and edited back to \<open>x\<close>. The tab then shows exactly what the store
  holds, and is dirty: \<^verbatim>\<open>updateTabContent\<close> sets \<^verbatim>\<open>isDirty: true\<close> without looking at the
  content.
\<close>

theorem dirty_after_restore_counterexample:
  "run edit_and_restore empty_session
     = Inr \<lparr>tabs = [mk_tab ''tab-1'' ''5'' ''a.js'' ''x'' True True],
            activeTabId = Some ''tab-1'', selectedFile = Some file_a\<rparr>
   \<and> run_store edit_and_restore empty_session Map.empty ''5'' = Some ''x''
   \<and> \<not> dirty_iff_differs
         \<lparr>tabs = [mk_tab ''tab-1'' ''5'' ''a.js'' ''x'' True True],
          activeTabId = Some ''tab-1'', selectedFile = Some file_a\<rparr>
         (run_store edit_and_restore empty_session Map.empty)"
  by (simp add: edit_and_restore_def dirty_iff_differs_def session_eval)

text \<open>
  C9 (amended): after any run from the empty session in which every new tab gets an
  unused id, a tab that is not dirty shows exactly the content last fetched from or
  saved to the store for its file; so a tab whose content differs from the persisted
  one is dirty. The converse does not hold: \<^verbatim>\<open>updateTabContent\<close> leaves every tab with
  the given id dirty, with the given content, whatever that content is.
\<close>

theorem clean_tab_is_persisted:
  "(all_along fresh_id ops empty_session \<and> run ops empty_session = Inr s \<longrightarrow>
      clean_is_persisted s (run_store ops empty_session Map.empty))
   \<and> list_all (\<lambda>t. id_t t = tabId \<longrightarrow> isDirty t \<and> content t = c) (tabs (updateTabContent tabId c s0))"
proof (intro conjI impI)
  assume h: "all_along fresh_id ops empty_session \<and> run ops empty_session = Inr s"
  have init: "dirty_inv empty_session Map.empty"
    by (simp add: dirty_inv_def clean_is_persisted_def empty_session_def)
  from h have h1: "all_along fresh_id ops empty_session" and h2: "run ops empty_session = Inr s"
    by blast+
  have "dirty_inv s (run_store ops empty_session Map.empty)"
    by (rule run_dirty_inv [OF init h1 h2])
  then show "clean_is_persisted s (run_store ops empty_session Map.empty)"
    by (simp add: dirty_inv_def)
next
  have "list_all (\<lambda>t. id_t t = tabId \<longrightarrow> isDirty t \<and> content t = c)
          (map (\<lambda>t. if id_t t = tabId then t\<lparr>content := c, isDirty := True\<rparr> else t) xs)" for xs
    by (induction xs) simp_all
  then show "list_all (\<lambda>t. id_t t = tabId \<longrightarrow> isDirty t \<and> content t = c) (tabs (updateTabContent tabId c s0))"
    by (simp add: updateTabContent_def)
qed

theorem clean_tab_is_persisted_witness:
  "all_along fresh_id edit_and_save empty_session
   \<and> run edit_and_save empty_session
       = Inr \<lparr>tabs = [mk_tab ''tab-1'' ''5'' ''a.js'' ''y'' False True],
              activeTabId = Some ''tab-1'', selectedFile = Some file_a\<rparr>
   \<and> run_store edit_and_save empty_session Map.empty ''5'' = Some ''y''
   \<and> clean_is_persisted \<lparr>tabs = [mk_tab ''tab-1'' ''5'' ''a.js'' ''y'' False True],
              activeTabId = Some ''tab-1'', selectedFile = Some file_a\<rparr>
         (run_store edit_and_save empty_session Map.empty)"
proof -
  have f: "all_along fresh_id edit_and_save empty_session"
    by (simp add: edit_and_save_def session_eval)
  have r: "run edit_and_save empty_session
       = Inr \<lparr>tabs = [mk_tab ''tab-1'' ''5'' ''a.js'' ''y'' False True],
              activeTabId = Some ''tab-1'', selectedFile = Some file_a\<rparr>"
    by (simp add: edit_and_save_def session_eval)
  have p: "run_store edit_and_save empty_session Map.empty ''5'' = Some ''y''"
    by (simp add: edit_and_save_def session_eval)
  have "clean_is_persisted \<lparr>tabs = [mk_tab ''tab-1'' ''5'' ''a.js'' ''y'' False True],
              activeTabId = Some ''tab-1'', selectedFile = Some file_a\<rparr>
         (run_store edit_and_save empty_session Map.empty)"
    using clean_tab_is_persisted [of edit_and_save] f r by blast
  then show ?thesis using f r p by blast
qed

section \<open>Sorting\<close>

lemma set_insort_by: "set (insort_by cmp x xs) = insert x (set xs)"
  by (induction xs) auto

lemma set_sort_by: "set (sort_by cmp xs) = set xs"
  unfolding sort_by_def by (induction xs) (auto simp: set_insort_by)

lemma length_insort_by: "length (insort_by cmp x xs) = Suc (length xs)"
  by (induction xs) auto

lemma length_sort_by: "length (sort_by cmp xs) = length xs"
  unfolding sort_by_def by (induction xs) (auto simp: length_insort_by)

lemma sorted_insort_by:
  assumes total: "\<And>a b. cmp a b \<le> 0 \<or> cmp b a \<le> 0"
    and trans: "\<And>a b c. cmp a b \<le> 0 \<Longrightarrow> cmp b c \<le> 0 \<Longrightarrow> cmp a c \<le> 0"
    and sorted: "sorted_wrt (\<lambda>a b. cmp a b \<le> 0) xs"
  shows "sorted_wrt (\<lambda>a b. cmp a b \<le> 0) (insort_by cmp x xs)"
  using sorted
proof (induction xs)
  case Nil
  then show ?case by simp
next
  case (Cons y ys)
  show ?case
  proof (cases "cmp x y \<le> 0")
    case True
    have "\<forall>z\<in>set ys. cmp x z \<le> 0" using Cons.prems True trans by auto
    then show ?thesis using True Cons.prems by simp
  next
    case False
    then have "cmp y x \<le> 0" using total [of x y] by simp
    moreover have "sorted_wrt (\<lambda>a b. cmp a b \<le> 0) (insort_by cmp x ys)"
      using Cons by simp
    ultimately show ?thesis using False Cons.prems by (auto simp: set_insort_by)
  qed
qed

lemma sorted_sort_by:
  assumes "\<And>a b. cmp a b \<le> 0 \<or> cmp b a \<le> 0"
    and "\<And>a b c. cmp a b \<le> 0 \<Longrightarrow> cmp b c \<le> 0 \<Longrightarrow> cmp a c \<le> 0"
  shows "sorted_wrt (\<lambda>a b. cmp a b \<le> 0) (sort_by cmp xs)"
  unfolding sort_by_def
  by (induction xs) (simp_all add: sorted_insort_by [OF assms])

text \<open>Sorting what is sorted changes nothing: the order that \<^verbatim>\<open>sort\<close> leaves in
  an array is the one it would compute again.\<close>

lemma insort_by_first: "\<forall>y\<in>set xs. cmp x y \<le> 0 \<Longrightarrow> insort_by cmp x xs = x # xs"
  by (cases xs) simp_all

lemma sort_by_sorted: "sorted_wrt (\<lambda>a b. cmp a b \<le> 0) xs \<Longrightarrow> sort_by cmp xs = xs"
  unfolding sort_by_def by (induction xs) (simp_all add: insort_by_first)

lemma sort_by_idem:
  assumes "\<And>a b. cmp a b \<le> 0 \<or> cmp b a \<le> 0"
    and "\<And>a b c. cmp a b \<le> 0 \<Longrightarrow> cmp b c \<le> 0 \<Longrightarrow> cmp a c \<le> 0"
  shows "sort_by cmp (sort_by cmp xs) = sort_by cmp xs"
  by (rule sort_by_sorted) (rule sorted_sort_by [OF assms])

lemma compare_nodes_total:
  "consistent lc \<Longrightarrow> compare_nodes lc a b \<le> 0 \<or> compare_nodes lc b a \<le> 0"
  by (cases "type_f a"; cases "type_f b") (auto simp: compare_nodes_def consistent_def)

lemma compare_nodes_trans:
  assumes "consistent lc" "compare_nodes lc a b \<le> 0" "compare_nodes lc b c \<le> 0"
  shows "compare_nodes lc a c \<le> 0"
proof -
  have tr: "\<And>x y z. lc x y \<le> 0 \<Longrightarrow> lc y z \<le> 0 \<Longrightarrow> lc x z \<le> 0"
    using assms(1) unfolding consistent_def by blast
  show ?thesis
    using assms(2,3) tr [of "name_f a" "name_f b" "name_f c"]
    by (cases "type_f a"; cases "type_f b"; cases "type_f c")
       (simp_all add: compare_nodes_def split: if_splits)
qed

lemma compare_nodes_in_order: "compare_nodes lc a b \<le> 0 \<Longrightarrow> in_order lc a b"
  by (cases "type_f a"; cases "type_f b") (simp_all add: compare_nodes_def in_order_def)

lemma sorted_nodes:
  assumes "consistent lc"
  shows "sorted_wrt (in_order lc) (map row (sort_by (\<lambda>a b. compare_nodes lc (row a) (row b)) ns))"
proof -
  have "sorted_wrt (\<lambda>a b. compare_nodes lc (row a) (row b) \<le> 0)
          (sort_by (\<lambda>a b. compare_nodes lc (row a) (row b)) ns)"
    by (rule sorted_sort_by) (use assms compare_nodes_total compare_nodes_trans in blast)+
  then have "sorted_wrt (\<lambda>a b. in_order lc (row a) (row b))
          (sort_by (\<lambda>a b. compare_nodes lc (row a) (row b)) ns)"
    by (rule sorted_wrt_mono_rel [rotated]) (simp add: compare_nodes_in_order)
  then show ?thesis by (simp add: sorted_wrt_map)
qed

lemma those_eq_Some: "those xs = Some ys \<longleftrightarrow> xs = map Some ys"
proof (induction xs arbitrary: ys)
  case Nil then show ?case by auto
next
  case (Cons x xs)
  then show ?case by (cases x; cases ys) (auto split: option.splits)
qed

lemma sortNodes_Suc:
  "sortNodes lc m (Suc n) nodes = Some out \<longleftrightarrow>
     map (copy_node lc m n) (sort_by (\<lambda>a b. compare_nodes lc (row a) (row b)) (List.map_filter m nodes)) = map Some out"
  by (simp add: those_eq_Some copy_node_def [abs_def])

lemma copy_node_row: "copy_node lc m n node = Some t \<Longrightarrow> node_row t = row node"
  by (auto simp: copy_node_def split: option.splits)

lemma map_copy_rows:
  "map (copy_node lc m n) ns = map Some out \<Longrightarrow> map node_row out = map row ns"
proof (induction ns arbitrary: out)
  case Nil then show ?case by simp
next
  case (Cons a ns)
  then show ?case by (cases out) (auto simp: copy_node_row)
qed

lemma sortNodes_sorted:
  assumes "consistent lc" "sortNodes lc m n nodes = Some out"
  shows "forest_levels (siblings_sorted lc) out"
  using assms(2)
proof (induction n arbitrary: nodes out)
  case 0
  then show ?case by simp
next
  case (Suc n)
  let ?ns = "sort_by (\<lambda>a b. compare_nodes lc (row a) (row b)) (List.map_filter m nodes)"
  have eq: "map (copy_node lc m n) ?ns = map Some out" using Suc.prems by (simp only: sortNodes_Suc)
  have top: "siblings_sorted lc out"
    using map_copy_rows [OF eq] sorted_nodes [OF assms(1)] by (simp add: siblings_sorted_def)
  have "every_level (siblings_sorted lc) t" if t: "t \<in> set out" for t
  proof -
    from t eq obtain node where node: "copy_node lc m n node = Some t"
      by (metis (no_types, lifting) imageE image_eqI list.set_map)
    show ?thesis
    proof (cases "children node")
      case None
      then show ?thesis using node by (auto simp: copy_node_def)
    next
      case (Some cs)
      then obtain ts where ts: "sortNodes lc m n cs = Some ts" "t = Node (row node) (Some ts)"
        using node by (auto simp: copy_node_def)
      from Suc.IH [OF ts(1)] show ?thesis using ts(2) by (simp add: forest_levels_def)
    qed
  qed
  then show ?case using top by (simp add: forest_levels_def list_all_iff)
qed

section \<open>What the two loops build\<close>

lemma index_file_fold:
  "files (fold index_file fs st) = files st
   \<and> rootNodes (fold index_file fs st) = rootNodes st
   \<and> nodeMap (fold index_file fs st) i =
       (case find (\<lambda>f. id_f f = i) (rev fs) of
          None \<Rightarrow> nodeMap st i
        | Some f \<Rightarrow> Some \<lparr>row = f, children = (if type_f f = FOLDER then Some [] else None)\<rparr>)"
proof (induction fs arbitrary: st)
  case Nil
  then show ?case by simp
next
  case (Cons g fs)
  show ?case
    using Cons [of "index_file g st"]
    by (cases "find (\<lambda>f. id_f f = i) (rev fs)") (auto simp: find_append index_file_def)
qed

lemma find_SomeD: "find P xs = Some x \<Longrightarrow> x \<in> set xs \<and> P x"
  by (induction xs) (auto split: if_splits)

lemma linked_dom: "(linked fs seen p \<noteq> None) = (p \<in> set (map id_f fs))"
proof (cases "find (\<lambda>f. id_f f = p) (rev fs)")
  case None
  then have "linked fs seen p = None" by (simp add: linked_def)
  moreover have "p \<notin> set (map id_f fs)" using None by (auto simp: find_None_iff)
  ultimately show ?thesis by simp
next
  case (Some f)
  then have "f \<in> set fs \<and> id_f f = p" using find_SomeD [of "\<lambda>f. id_f f = p" "rev fs" f] by simp
  then show ?thesis using Some by (auto simp: linked_def)
qed

lemma linked_Nil:
  "linked fs [] i = (case find (\<lambda>f. id_f f = i) (rev fs) of
          None \<Rightarrow> None
        | Some f \<Rightarrow> Some \<lparr>row = f, children = (if type_f f = FOLDER then Some [] else None)\<rparr>)"
  by (simp add: linked_def split: option.splits)

lemma link_file_root:
  assumes "nodeMap st = linked fs seen" "rootNodes st = roots_of fs seen" "parent_in fs g = None"
  shows "link_file g st = st\<lparr>rootNodes := rootNodes st @ [id_f g]\<rparr>"
proof (cases "parentId g")
  case None
  then show ?thesis by (simp add: link_file_def)
next
  case (Some p)
  then have "\<not> (p \<noteq> [] \<and> p \<in> set (map id_f fs))"
    using assms(3) by (auto simp: parent_in_def split: if_splits)
  then have "\<not> (p \<noteq> [] \<and> nodeMap st p \<noteq> None)"
    using assms(1) linked_dom [of fs seen p] by simp
  then show ?thesis using Some by (auto simp: link_file_def)
qed

lemma link_file_step:
  assumes m: "nodeMap st = linked fs seen" and r: "rootNodes st = roots_of fs seen"
  shows "nodeMap (link_file g st) = linked fs (seen @ [g])
    \<and> rootNodes (link_file g st) = roots_of fs (seen @ [g])
    \<and> files (link_file g st) = files st"
proof (cases "parent_in fs g")
  case None
  have "linked fs (seen @ [g]) = linked fs seen"
    using None by (auto simp: linked_def fun_eq_iff split: option.splits)
  then show ?thesis
    using link_file_root [OF m r None] m r None by (simp add: roots_of_def)
next
  case (Some p)
  then have pid: "parentId g = Some p" and p: "p \<noteq> []" "p \<in> set (map id_f fs)"
    by (auto simp: parent_in_def split: option.splits if_splits)
  then obtain parent where parent: "linked fs seen p = Some parent"
    using linked_dom [of fs seen p] by auto
  then obtain f where f: "find (\<lambda>f. id_f f = p) (rev fs) = Some f"
    and parent_eq: "parent = \<lparr>row = f, children =
         (if type_f f = FOLDER
          then Some (map id_f (filter (\<lambda>g. parent_in fs g = Some p) seen)) else None)\<rparr>"
    by (auto simp: linked_def split: option.splits)
  have roots: "roots_of fs (seen @ [g]) = roots_of fs seen" using Some by (simp add: roots_of_def)
  show ?thesis
  proof (cases "type_f f = FOLDER")
    case True
    have st': "link_file g st = st\<lparr>nodeMap := (nodeMap st)(p \<mapsto>
        parent\<lparr>children := Some (map id_f (filter (\<lambda>g. parent_in fs g = Some p) seen) @ [id_f g])\<rparr>)\<rparr>"
      using pid p m parent parent_eq True by (simp add: link_file_def)
    have "(linked fs seen)(p \<mapsto>
        parent\<lparr>children := Some (map id_f (filter (\<lambda>g. parent_in fs g = Some p) seen) @ [id_f g])\<rparr>)
        = linked fs (seen @ [g])"
    proof
      fix i
      show "((linked fs seen)(p \<mapsto>
        parent\<lparr>children := Some (map id_f (filter (\<lambda>g. parent_in fs g = Some p) seen) @ [id_f g])\<rparr>)) i
        = linked fs (seen @ [g]) i"
      proof (cases "i = p")
        case True
        then show ?thesis using f parent_eq \<open>type_f f = FOLDER\<close> Some by (simp add: linked_def)
      next
        case False
        then show ?thesis using Some by (auto simp: linked_def split: option.splits)
      qed
    qed
    then show ?thesis using st' m r roots by simp
  next
    case False
    have st': "link_file g st = st"
      using pid p m parent parent_eq False by (simp add: link_file_def)
    have "linked fs (seen @ [g]) = linked fs seen"
    proof
      fix i
      show "linked fs (seen @ [g]) i = linked fs seen i"
      proof (cases "i = p")
        case True
        then show ?thesis using f False by (simp add: linked_def)
      next
        case ne: False
        then show ?thesis using Some by (auto simp: linked_def split: option.splits)
      qed
    qed
    then show ?thesis using st' m r roots by simp
  qed
qed

lemma link_file_fold:
  assumes "nodeMap st = linked fs seen" "rootNodes st = roots_of fs seen"
  shows "nodeMap (fold link_file gs st) = linked fs (seen @ gs)
    \<and> rootNodes (fold link_file gs st) = roots_of fs (seen @ gs)
    \<and> files (fold link_file gs st) = files st"
  using assms
proof (induction gs arbitrary: st seen)
  case Nil
  then show ?case by simp
next
  case (Cons g gs)
  from link_file_step [OF Cons.prems, of g]
  have s: "nodeMap (link_file g st) = linked fs (seen @ [g])"
    "rootNodes (link_file g st) = roots_of fs (seen @ [g])" "files (link_file g st) = files st"
    by simp_all
  from Cons.IH [OF s(1) s(2)] s(3) show ?case by simp
qed

lemma buildTree_body_eq:
  "buildTree_body lc fs =
     (\<lparr>files = fs, nodeMap = linked fs fs, rootNodes = roots_of fs fs\<rparr>,
      sortNodes lc (linked fs fs) (Suc (length fs)) (roots_of fs fs))"
proof -
  define st0 where "st0 = \<lparr>files = fs, nodeMap = Map.empty, rootNodes = []\<rparr>"
  define st1 where "st1 = fold index_file fs st0"
  define st2 where "st2 = fold link_file fs st1"
  have f1: "files st1 = fs" and r1: "rootNodes st1 = roots_of fs []"
    using index_file_fold [of fs st0] by (simp_all add: st1_def st0_def roots_of_def)
  have m1: "nodeMap st1 = linked fs []"
  proof
    fix i show "nodeMap st1 i = linked fs [] i"
      using index_file_fold [of fs st0 i] by (simp add: st1_def linked_Nil st0_def split: option.splits)
  qed
  from link_file_fold [OF m1 r1, of fs]
  have s2: "nodeMap st2 = linked fs fs" "rootNodes st2 = roots_of fs fs" "files st2 = fs"
    using f1 by (simp_all add: st2_def)
  then have "st2 = \<lparr>files = fs, nodeMap = linked fs fs, rootNodes = roots_of fs fs\<rparr>"
    by (cases st2) simp
  moreover have e1: "fold index_file (files st0) st0 = st1" by (simp add: st1_def st0_def)
  moreover have e2: "fold link_file (files st1) st1 = st2" using f1 by (simp add: st2_def)
  moreover have "buildTree_body lc fs = (st2, sortNodes lc (nodeMap st2) (Suc (length (files st2))) (rootNodes st2))"
    unfolding buildTree_body_def Let_def st0_def [symmetric] e1 e2 by (rule refl)
  ultimately show ?thesis by (simp del: sortNodes.simps)
qed

section \<open>The rows below the roots\<close>

lemma find_distinct:
  assumes "distinct (map f xs)" "x \<in> set xs"
  shows "find (\<lambda>y. f y = f x) xs = Some x"
  using assms
proof (induction xs)
  case Nil then show ?case by simp
next
  case (Cons a xs)
  show ?case
  proof (cases "a = x")
    case True then show ?thesis by simp
  next
    case False
    then have "x \<in> set xs" using Cons.prems by simp
    then have "f x \<in> f ` set xs" by simp
    then have "f a \<noteq> f x" using Cons.prems(1) by auto
    then show ?thesis using Cons \<open>x \<in> set xs\<close> by simp
  qed
qed

lemma linked_row:
  assumes "distinct (map id_f fs)" "g \<in> set fs"
  shows "linked fs seen (id_f g) = Some \<lparr>row = g, children =
         (if type_f g = FOLDER
          then Some (map id_f (filter (\<lambda>h. parent_in fs h = Some (id_f g)) seen)) else None)\<rparr>"
proof -
  have "distinct (map id_f (rev fs))" using assms(1) by (simp add: rev_map [symmetric])
  then have "find (\<lambda>y. id_f y = id_f g) (rev fs) = Some g"
    using find_distinct [of id_f "rev fs" g] assms(2) by simp
  then show ?thesis by (simp add: linked_def)
qed

lemma linked_key: "linked fs seen c = Some node \<Longrightarrow> id_f (row node) = c \<and> row node \<in> set fs"
  using find_SomeD [of "\<lambda>f. id_f f = c" "rev fs"]
  by (auto simp: linked_def split: option.splits)

lemma par_row:
  assumes "distinct (map id_f fs)" "g \<in> set fs"
  shows "par fs (id_f g) = parent_in fs g"
  using find_distinct [OF assms] by (simp add: par_def)

lemma kids_mem:
  assumes "x \<in> set (kids (linked fs fs) p)"
  shows "\<exists>g\<in>set fs. id_f g = x \<and> parent_in fs g = Some p
          \<and> (\<exists>f\<in>set fs. id_f f = p \<and> row (the (linked fs fs p)) = f \<and> type_f f = FOLDER)"
proof (cases "linked fs fs p")
  case None
  then show ?thesis using assms by (simp add: kids_def)
next
  case (Some node)
  then have k: "id_f (row node) = p" "row node \<in> set fs" using linked_key by blast+
  from Some obtain f where f: "find (\<lambda>f. id_f f = p) (rev fs) = Some f" "row node = f"
    "children node = (if type_f f = FOLDER
          then Some (map id_f (filter (\<lambda>g. parent_in fs g = Some p) fs)) else None)"
    by (auto simp: linked_def split: option.splits)
  show ?thesis
  proof (cases "type_f f = FOLDER")
    case True
    then have "x \<in> set (map id_f (filter (\<lambda>g. parent_in fs g = Some p) fs))"
      using assms Some f by (simp add: kids_def)
    then show ?thesis using k f True Some by auto
  next
    case False
    then show ?thesis using assms Some f by (simp add: kids_def)
  qed
qed

lemma kids_par:
  assumes "distinct (map id_f fs)" "x \<in> set (kids (linked fs fs) p)"
  shows "par fs x = Some p"
  using kids_mem [OF assms(2)] par_row [OF assms(1)] by auto

lemma kids_disjoint:
  assumes "distinct (map id_f fs)" "p \<noteq> q"
  shows "set (kids (linked fs fs) p) \<inter> set (kids (linked fs fs) q) = {}"
proof -
  have False if z: "z \<in> set (kids (linked fs fs) p)" "z \<in> set (kids (linked fs fs) q)" for z
  proof -
    have "par fs z = Some p" by (rule kids_par [OF assms(1) z(1)])
    moreover have "par fs z = Some q" by (rule kids_par [OF assms(1) z(2)])
    ultimately show False using assms(2) by simp
  qed
  then show ?thesis by auto
qed

lemma kids_subset: "set (kids (linked fs fs) p) \<subseteq> set (map id_f fs)"
  using kids_mem by fastforce

lemma kids_distinct:
  assumes "distinct (map id_f fs)"
  shows "distinct (kids (linked fs fs) p)"
proof (cases "linked fs fs p")
  case None then show ?thesis by (simp add: kids_def)
next
  case (Some node)
  then show ?thesis using assms
    by (auto simp: kids_def linked_def distinct_map_filter split: option.splits if_splits)
qed

lemma roots_mem:
  "x \<in> set (roots_of fs fs) \<Longrightarrow> \<exists>g\<in>set fs. id_f g = x \<and> parent_in fs g = None"
  by (auto simp: roots_of_def)

lemma roots_par:
  assumes "distinct (map id_f fs)" "x \<in> set (roots_of fs fs)"
  shows "par fs x = None"
  using roots_mem [OF assms(2)] par_row [OF assms(1)] by auto

lemma roots_distinct: "distinct (map id_f fs) \<Longrightarrow> distinct (roots_of fs fs)"
  by (simp add: roots_of_def distinct_map_filter)

lemma depth_unique: "depth_is fs d x \<Longrightarrow> depth_is fs e x \<Longrightarrow> d = e"
proof (induction d arbitrary: x e)
  case 0
  then show ?case by (cases e) auto
next
  case (Suc d)
  then obtain p where p: "par fs x = Some p" "depth_is fs d p" by (auto split: option.splits)
  show ?case
  proof (cases e)
    case 0
    then show ?thesis using Suc.prems(2) p by simp
  next
    case (Suc e')
    then have "depth_is fs e' p" using Suc.prems(2) p by simp
    then show ?thesis using Suc.IH [OF p(2)] \<open>e = Suc e'\<close> by simp
  qed
qed

lemma distinct_concat_map:
  assumes "distinct xs" "\<And>x. x \<in> set xs \<Longrightarrow> distinct (f x)"
    "\<And>x y. x \<in> set xs \<Longrightarrow> y \<in> set xs \<Longrightarrow> x \<noteq> y \<Longrightarrow> set (f x) \<inter> set (f y) = {}"
  shows "distinct (concat (map f xs))"
  using assms
proof (induction xs)
  case Nil then show ?case by simp
next
  case (Cons a xs)
  have "distinct (concat (map f xs))" using Cons by simp
  moreover have "distinct (f a)" using Cons.prems(2) by simp
  moreover have "set (f a) \<inter> set (concat (map f xs)) = {}"
  proof -
    have "set (f a) \<inter> set (f y) = {}" if "y \<in> set xs" for y
      using Cons.prems(3) [of a y] Cons.prems(1) that by auto
    then show ?thesis by auto
  qed
  ultimately show ?case by simp
qed

lemma reach_subset:
  "set (reach m n ids) \<subseteq> set ids \<union> (\<Union>p. set (kids m p))"
proof (induction n arbitrary: ids)
  case 0 then show ?case by simp
next
  case (Suc n)
  have "set (concat (map (kids m) ids)) \<subseteq> (\<Union>p. set (kids m p))" by auto
  then show ?case using Suc [of "concat (map (kids m) ids)"] by auto
qed

lemma reach_distinct:
  assumes fs: "distinct (map id_f fs)"
    and ids: "distinct ids" "\<And>x. x \<in> set ids \<Longrightarrow> depth_is fs d x"
  shows "distinct (reach (linked fs fs) n ids)
       \<and> (\<forall>x\<in>set (reach (linked fs fs) n ids). \<exists>e\<ge>d. depth_is fs e x)"
  using ids
proof (induction n arbitrary: d ids)
  case 0
  then show ?case by auto
next
  case (Suc n)
  let ?m = "linked fs fs"
  let ?K = "concat (map (kids ?m) ids)"
  have dK: "distinct ?K"
  proof (rule distinct_concat_map)
    show "distinct ids" by (rule Suc.prems(1))
    show "distinct (kids ?m x)" for x by (rule kids_distinct [OF fs])
    show "set (kids ?m x) \<inter> set (kids ?m y) = {}" if "x \<noteq> y" for x y
      by (rule kids_disjoint [OF fs that])
  qed
  have depK: "depth_is fs (Suc d) x" if "x \<in> set ?K" for x
  proof -
    from that obtain p where p: "p \<in> set ids" "x \<in> set (kids ?m p)" by auto
    then have "par fs x = Some p" using kids_par [OF fs] by simp
    then show ?thesis using Suc.prems(2) [OF p(1)] by simp
  qed
  from Suc.IH [OF dK depK]
  have ih: "distinct (reach ?m n ?K)" "\<forall>x\<in>set (reach ?m n ?K). \<exists>e\<ge>Suc d. depth_is fs e x"
    by simp_all
  have disj: "set ids \<inter> set (reach ?m n ?K) = {}"
  proof (rule ccontr)
    assume "set ids \<inter> set (reach ?m n ?K) \<noteq> {}"
    then obtain x where x: "x \<in> set ids" "x \<in> set (reach ?m n ?K)" by auto
    then obtain e where e: "Suc d \<le> e" "depth_is fs e x" using ih(2) by blast
    then show False using depth_unique [OF Suc.prems(2) [OF x(1)] e(2)] by simp
  qed
  have "\<exists>e\<ge>d. depth_is fs e x" if "x \<in> set (reach ?m (Suc n) ids)" for x
  proof (cases "x \<in> set ids")
    case True
    then show ?thesis using Suc.prems(2) by blast
  next
    case False
    then have "x \<in> set (reach ?m n ?K)" using that by simp
    then obtain e where "Suc d \<le> e" "depth_is fs e x" using ih(2) by blast
    then show ?thesis by (intro exI [of _ e]) simp
  qed
  then show ?case using Suc.prems(1) ih(1) disj by simp
qed

lemma reach_roots:
  assumes fs: "distinct (map id_f fs)"
  shows "distinct (reach (linked fs fs) n (roots_of fs fs))"
    and "set (reach (linked fs fs) n (roots_of fs fs)) \<subseteq> set (map id_f fs)"
    and "length (reach (linked fs fs) n (roots_of fs fs)) \<le> length fs"
proof -
  let ?R = "reach (linked fs fs) n (roots_of fs fs)"
  have "depth_is fs 0 x" if "x \<in> set (roots_of fs fs)" for x
    using roots_par [OF fs that] by simp
  from reach_distinct [OF fs roots_distinct [OF fs] this]
  show d: "distinct ?R" by simp
  have "set (roots_of fs fs) \<subseteq> set (map id_f fs)" by (auto simp: roots_of_def)
  then show s: "set ?R \<subseteq> set (map id_f fs)"
    using reach_subset [of "linked fs fs" n "roots_of fs fs"] kids_subset [of fs] by blast
  have "length ?R = card (set ?R)" using d by (simp add: distinct_card)
  also have "\<dots> \<le> card (set (map id_f fs))" using s by (simp add: card_mono)
  also have "\<dots> \<le> length fs" using card_length [of "map id_f fs"] by simp
  finally show "length ?R \<le> length fs" .
qed

section \<open>Depth, size and content of the output\<close>

lemma lev_Nil: "lev m k [] = []"
  by (induction k) auto

lemma lev_append: "lev m k (xs @ ys) = lev m k xs @ lev m k ys"
  by (induction k arbitrary: xs ys) auto

lemma lev_part:
  "c \<in> set ids \<Longrightarrow> lev m k (concat (map (kids m) ids)) = [] \<Longrightarrow> lev m k (kids m c) = []"
  by (induction ids) (auto simp: lev_append)

lemma reach_Nil: "reach m n [] = []"
  by (induction n) auto

lemma reach_length_append:
  "length (reach m n (xs @ ys)) = length (reach m n xs) + length (reach m n ys)"
  by (induction n arbitrary: xs ys) auto

lemma reach_set_append: "set (reach m n (xs @ ys)) = set (reach m n xs) \<union> set (reach m n ys)"
  by (induction n arbitrary: xs ys) auto

lemma reach_part:
  "c \<in> set ids \<Longrightarrow> set (reach m n (kids m c)) \<subseteq> set (reach m n (concat (map (kids m) ids)))"
  by (induction ids) (auto simp: reach_set_append)

lemma reach_top: "set ids \<subseteq> set (reach m n ids)"
  by (cases n) auto

lemma reach_length_lev: "lev m n ids \<noteq> [] \<Longrightarrow> Suc n \<le> length (reach m n ids)"
proof (induction n arbitrary: ids)
  case 0
  then show ?case by (cases ids) auto
next
  case (Suc n)
  then have "ids \<noteq> []" by (auto simp: lev_Nil)
  moreover have "Suc n \<le> length (reach m n (concat (map (kids m) ids)))"
    using Suc by simp
  ultimately show ?case by (cases ids) auto
qed

lemma those_map_Some: "(\<And>x. x \<in> set xs \<Longrightarrow> g x \<noteq> None) \<Longrightarrow> those (map g xs) \<noteq> None"
  by (induction xs) (auto split: option.splits)

lemma map_filter_mem: "node \<in> set (List.map_filter m ids) \<Longrightarrow> \<exists>c\<in>set ids. m c = Some node"
  by (auto simp: List.map_filter_def)

lemma kids_children: "m c = Some node \<Longrightarrow> children node = Some cs \<Longrightarrow> kids m c = cs"
  by (simp add: kids_def)

lemma sortNodes_enough:
  "lev m n ids = [] \<Longrightarrow> sortNodes lc m (Suc n) ids \<noteq> None"
proof (induction n arbitrary: ids)
  case 0
  then show ?case by (simp add: List.map_filter_def sort_by_def)
next
  case (Suc n)
  have "copy_node lc m (Suc n) node \<noteq> None"
    if "node \<in> set (sort_by (\<lambda>a b. compare_nodes lc (row a) (row b)) (List.map_filter m ids))" for node
  proof (cases "children node")
    case None
    then show ?thesis by (simp add: copy_node_def)
  next
    case (Some cs)
    from that obtain c where c: "c \<in> set ids" "m c = Some node"
      using map_filter_mem [of node m ids] by (auto simp: set_sort_by)
    have "lev m n (kids m c) = []" using lev_part [OF c(1)] Suc.prems by simp
    then have "sortNodes lc m (Suc n) cs \<noteq> None"
      using Suc.IH kids_children [of m c node cs] c(2) Some by simp
    then show ?thesis using Some by (simp add: copy_node_def del: sortNodes.simps)
  qed
  then have "those (map (copy_node lc m (Suc n))
      (sort_by (\<lambda>a b. compare_nodes lc (row a) (row b)) (List.map_filter m ids))) \<noteq> None"
    by (rule those_map_Some)
  then show ?case by (simp add: copy_node_def [abs_def] del: sortNodes.simps(2) add: sortNodes.simps(2) [of lc m "Suc n" ids])
qed

lemma sum_insort_by: "sum_list (map w (insort_by cmp x xs)) = (w x :: nat) + sum_list (map w xs)"
  by (induction xs) auto

lemma sum_sort_by: "sum_list (map w (sort_by cmp xs)) = (sum_list (map w xs) :: nat)"
  unfolding sort_by_def by (induction xs) (auto simp: sum_insort_by)

lemma rows_bound:
  assumes "map g ns = map Some out" "\<And>node t. node \<in> set ns \<Longrightarrow> g node = Some t \<Longrightarrow> length (rows_of t) \<le> w node"
  shows "length (concat (map rows_of out)) \<le> sum_list (map w ns)"
  using assms
proof (induction ns arbitrary: out)
  case Nil
  then show ?case by simp
next
  case (Cons a ns)
  then obtain t ts where out: "out = t # ts" "g a = Some t" "map g ns = map Some ts"
    by (cases out) auto
  have "length (rows_of t) \<le> w a" using Cons.prems(2) [of a t] out by simp
  moreover have "length (concat (map rows_of ts)) \<le> sum_list (map w ns)"
    using Cons.IH [OF out(3)] Cons.prems(2) by simp
  ultimately show ?case using out by simp
qed

lemma sum_map_filter:
  "sum_list (map w (List.map_filter m ids))
     = sum_list (map (\<lambda>c. case m c of None \<Rightarrow> 0 | Some node \<Rightarrow> w node) ids)"
  by (induction ids) (auto simp: List.map_filter_simps split: option.splits)

lemma sum_kids:
  "sum_list (map (\<lambda>c. Suc (length (reach m n (kids m c)))) ids)
     = length ids + length (reach m n (concat (map (kids m) ids)))"
  by (induction ids) (auto simp: reach_length_append reach_Nil)

lemma sortNodes_size:
  "sortNodes lc m (Suc n) ids = Some out \<Longrightarrow> length (concat (map rows_of out)) \<le> length (reach m n ids)"
proof (induction n arbitrary: ids out)
  case 0
  let ?ns = "sort_by (\<lambda>a b. compare_nodes lc (row a) (row b)) (List.map_filter m ids)"
  have eq: "map (copy_node lc m 0) ?ns = map Some out" using "0.prems" by (simp only: sortNodes_Suc)
  have "length (rows_of t) \<le> 1" if "copy_node lc m 0 node = Some t" for node t
    using that by (auto simp: copy_node_def split: option.splits)
  then have "length (concat (map rows_of out)) \<le> sum_list (map (\<lambda>_. 1) ?ns)"
    using rows_bound [OF eq, of "\<lambda>_. 1"] by simp
  also have "\<dots> = length (List.map_filter m ids)" by (simp add: sum_list_triv length_sort_by)
  also have "\<dots> \<le> length ids" by (simp add: List.map_filter_def)
  finally show ?case by simp
next
  case (Suc n)
  let ?ns = "sort_by (\<lambda>a b. compare_nodes lc (row a) (row b)) (List.map_filter m ids)"
  let ?w = "\<lambda>node. Suc (length (reach m n (case children node of None \<Rightarrow> [] | Some cs \<Rightarrow> cs)))"
  have eq: "map (copy_node lc m (Suc n)) ?ns = map Some out" using Suc.prems by (simp only: sortNodes_Suc)
  have one: "length (rows_of t) \<le> ?w node" if cp: "copy_node lc m (Suc n) node = Some t" for node t
  proof (cases "children node")
    case None
    then show ?thesis using cp by (auto simp: copy_node_def)
  next
    case (Some cs)
    then obtain ts where ts: "sortNodes lc m (Suc n) cs = Some ts" "t = Node (row node) (Some ts)"
      using cp by (auto simp: copy_node_def simp del: sortNodes.simps)
    then show ?thesis using Suc.IH [OF ts(1)] Some by simp
  qed
  have "length (concat (map rows_of out)) \<le> sum_list (map ?w ?ns)"
    using rows_bound [OF eq, of ?w] one by blast
  also have "\<dots> = sum_list (map ?w (List.map_filter m ids))" by (rule sum_sort_by)
  also have "\<dots> = sum_list (map (\<lambda>c. case m c of None \<Rightarrow> 0 | Some node \<Rightarrow> ?w node) ids)"
    by (rule sum_map_filter)
  also have "\<dots> \<le> sum_list (map (\<lambda>c. Suc (length (reach m n (kids m c)))) ids)"
    by (rule sum_list_mono) (auto simp: kids_def split: option.splits)
  also have "\<dots> = length (reach m (Suc n) ids)" by (simp add: sum_kids)
  finally show ?case .
qed

lemma sortNodes_rows:
  "sortNodes lc m (Suc n) ids = Some out \<Longrightarrow> f \<in> set (concat (map rows_of out)) \<Longrightarrow>
     \<exists>c\<in>set (reach m n ids). \<exists>node. m c = Some node \<and> row node = f"
proof (induction n arbitrary: ids out f)
  case 0
  let ?ns = "sort_by (\<lambda>a b. compare_nodes lc (row a) (row b)) (List.map_filter m ids)"
  have eq: "map (copy_node lc m 0) ?ns = map Some out" using "0.prems"(1) by (simp only: sortNodes_Suc)
  from "0.prems"(2) obtain t where t: "t \<in> set out" "f \<in> set (rows_of t)" by auto
  then obtain node where node: "node \<in> set ?ns" "copy_node lc m 0 node = Some t"
    using eq by (metis (no_types, lifting) imageE image_eqI list.set_map)
  then have "row node = f" using t(2) by (auto simp: copy_node_def split: option.splits)
  moreover obtain c where "c \<in> set ids" "m c = Some node"
    using node(1) map_filter_mem [of node m ids] by (auto simp: set_sort_by)
  ultimately show ?case by auto
next
  case (Suc n)
  let ?ns = "sort_by (\<lambda>a b. compare_nodes lc (row a) (row b)) (List.map_filter m ids)"
  have eq: "map (copy_node lc m (Suc n)) ?ns = map Some out" using Suc.prems(1) by (simp only: sortNodes_Suc)
  from Suc.prems(2) obtain t where t: "t \<in> set out" "f \<in> set (rows_of t)" by auto
  then obtain node where node: "node \<in> set ?ns" "copy_node lc m (Suc n) node = Some t"
    using eq by (metis (no_types, lifting) imageE image_eqI list.set_map)
  obtain c where c: "c \<in> set ids" "m c = Some node"
    using node(1) map_filter_mem [of node m ids] by (auto simp: set_sort_by)
  show ?case
  proof (cases "row node = f")
    case True
    then show ?thesis using c reach_top [of ids m "Suc n"] by auto
  next
    case False
    then obtain cs ts where cs: "children node = Some cs" "sortNodes lc m (Suc n) cs = Some ts"
      "f \<in> set (concat (map rows_of ts))"
      using node(2) t(2) by (auto simp: copy_node_def simp del: sortNodes.simps split: option.splits)
    from Suc.IH [OF cs(2) cs(3)] obtain c' node' where c': "c' \<in> set (reach m n cs)"
      "m c' = Some node'" "row node' = f" by blast
    have "set (reach m n cs) \<subseteq> set (reach m n (concat (map (kids m) ids)))"
      using reach_part [OF c(1), of m n] kids_children [of m c node cs] c(2) cs(1) by simp
    then have "c' \<in> set (reach m (Suc n) ids)" using c'(1) by auto
    then show ?thesis using c'(2,3) by blast
  qed
qed

section \<open>The builder returns\<close>

lemma buildTree_eq:
  "buildTree lc fs = sortNodes lc (linked fs fs) (Suc (length fs)) (roots_of fs fs)"
  by (simp add: buildTree_def buildTree_body_eq del: sortNodes.simps)

lemma buildTree_total:
  assumes "distinct (map id_f fs)"
  shows "\<exists>out. buildTree lc fs = Some out"
proof -
  have "lev (linked fs fs) (length fs) (roots_of fs fs) = []"
  proof (rule ccontr)
    assume "lev (linked fs fs) (length fs) (roots_of fs fs) \<noteq> []"
    then have "Suc (length fs) \<le> length (reach (linked fs fs) (length fs) (roots_of fs fs))"
      by (rule reach_length_lev)
    then show False using reach_roots(3) [OF assms, of "length fs"] by simp
  qed
  then have "sortNodes lc (linked fs fs) (Suc (length fs)) (roots_of fs fs) \<noteq> None"
    by (rule sortNodes_enough)
  then show ?thesis by (auto simp: buildTree_eq simp del: sortNodes.simps)
qed

lemma map_filter_in: "c \<in> set ids \<Longrightarrow> m c = Some node \<Longrightarrow> node \<in> set (List.map_filter m ids)"
  by (force simp: List.map_filter_def)

lemma by_code_Cons:
  "(by_code (x # xs) (y # ys) \<le> 0) =
     ((of_char x :: nat) < of_char y \<or> (x = y \<and> by_code xs ys \<le> 0))"
proof (cases "(of_char x :: nat) < of_char y")
  case True
  then show ?thesis by simp
next
  case nlt: False
  show ?thesis
  proof (cases "(of_char y :: nat) < of_char x")
    case True
    then have "x \<noteq> y" by blast
    then show ?thesis using nlt True by simp
  next
    case False
    then have "(of_char x :: nat) = of_char y" using nlt by simp
    then have "x = y" by simp
    then show ?thesis using nlt False by simp
  qed
qed

lemma by_code_total: "by_code a b \<le> 0 \<or> by_code b a \<le> 0"
proof (induction a b rule: by_code.induct)
  case (4 x xs y ys)
  then show ?case by (cases "(of_char x :: nat) < of_char y"; cases "(of_char y :: nat) < of_char x") simp_all
qed simp_all

lemma by_code_trans: "by_code a b \<le> 0 \<Longrightarrow> by_code b c \<le> 0 \<Longrightarrow> by_code a c \<le> 0"
proof (induction a arbitrary: b c)
  case Nil
  then show ?case by (cases c) simp_all
next
  case (Cons x xs)
  from Cons.prems(1) obtain y ys where b: "b = y # ys" by (cases b) simp_all
  from Cons.prems(2) b obtain z zs where c: "c = z # zs" by (cases c) simp_all
  have ab: "(of_char x :: nat) < of_char y \<or> (x = y \<and> by_code xs ys \<le> 0)"
    using Cons.prems(1) b by (simp only: by_code_Cons)
  have bc: "(of_char y :: nat) < of_char z \<or> (y = z \<and> by_code ys zs \<le> 0)"
    using Cons.prems(2) b c by (simp only: by_code_Cons)
  have "(of_char x :: nat) < of_char z \<or> (x = z \<and> by_code xs zs \<le> 0)"
    using ab bc Cons.IH [of ys zs] by (elim disjE conjE) simp_all
  then show ?case unfolding c by (simp only: by_code_Cons)
qed

lemma by_code_consistent: "consistent by_code"
  unfolding consistent_def using by_code_total by_code_trans by blast

section \<open>The builder on the example rows\<close>

text \<open>The scenario of the specification gives \<open>[src{[a.js]}, b.js]\<close>.\<close>

lemma scenario_rows_tree:
  "buildTree by_code scenario_rows =
     Some [Node (mk_file ''1'' ''src'' FOLDER None)
             (Some [Node (mk_file ''2'' ''a.js'' FILE (Some ''1'')) None]),
           Node (mk_file ''3'' ''b.js'' FILE None) None]"
  by code_simp

lemma unsorted_rows_tree:
  "buildTree by_code unsorted_rows =
     Some [Node (mk_file ''2'' ''src'' FOLDER None)
             (Some [Node (mk_file ''5'' ''lib'' FOLDER (Some ''2'')) (Some []),
                    Node (mk_file ''4'' ''z.ts'' FILE (Some ''2'')) None]),
           Node (mk_file ''3'' ''a.js'' FILE None) None,
           Node (mk_file ''1'' ''b.js'' FILE None) None]"
  by code_simp

lemma orphan_rows_tree:
  "buildTree by_code orphan_rows =
     Some [Node (mk_file ''3'' ''a'' FOLDER (Some ''9'')) (Some []),
           Node (mk_file ''1'' ''b.js'' FILE None) None]"
  by code_simp

section \<open>Order of siblings\<close>

text \<open>
  C6: for a consistent name comparison (\<^verbatim>\<open>localeCompare\<close> is one) and every list of
  rows, every list of siblings of the output (the roots and each node's children) is
  ordered: no file stands before a folder, and of two nodes of the same type the
  earlier one is not after the later one in the name comparison. With unique ids the
  builder does return an output.
\<close>

theorem buildTree_siblings_sorted:
  assumes "consistent lc"
  shows "(distinct (map id_f fs) \<longrightarrow> (\<exists>out. buildTree lc fs = Some out))
       \<and> (\<forall>out. buildTree lc fs = Some out \<longrightarrow> forest_levels (siblings_sorted lc) out)"
  using buildTree_total [of fs lc] sortNodes_sorted [OF assms, of "linked fs fs" "Suc (length fs)" "roots_of fs fs"]
  by (simp add: buildTree_eq del: sortNodes.simps)

theorem buildTree_siblings_sorted_witness:
  "consistent by_code \<and> distinct (map id_f unsorted_rows)
   \<and> buildTree by_code unsorted_rows =
       Some [Node (mk_file ''2'' ''src'' FOLDER None)
               (Some [Node (mk_file ''5'' ''lib'' FOLDER (Some ''2'')) (Some []),
                      Node (mk_file ''4'' ''z.ts'' FILE (Some ''2'')) None]),
             Node (mk_file ''3'' ''a.js'' FILE None) None,
             Node (mk_file ''1'' ''b.js'' FILE None) None]
   \<and> forest_levels (siblings_sorted by_code)
         [Node (mk_file ''2'' ''src'' FOLDER None)
               (Some [Node (mk_file ''5'' ''lib'' FOLDER (Some ''2'')) (Some []),
                      Node (mk_file ''4'' ''z.ts'' FILE (Some ''2'')) None]),
             Node (mk_file ''3'' ''a.js'' FILE None) None,
             Node (mk_file ''1'' ''b.js'' FILE None) None]"
proof -
  have d: "distinct (map id_f unsorted_rows)" by (simp add: unsorted_rows_def mk_file_def)
  from buildTree_siblings_sorted [OF by_code_consistent, of unsorted_rows] unsorted_rows_tree
  have "forest_levels (siblings_sorted by_code)
         [Node (mk_file ''2'' ''src'' FOLDER None)
               (Some [Node (mk_file ''5'' ''lib'' FOLDER (Some ''2'')) (Some []),
                      Node (mk_file ''4'' ''z.ts'' FILE (Some ''2'')) None]),
             Node (mk_file ''3'' ''a.js'' FILE None) None,
             Node (mk_file ''1'' ''b.js'' FILE None) None]"
    by blast
  then show ?thesis using by_code_consistent d unsorted_rows_tree by blast
qed

section \<open>Orphans\<close>

text \<open>
  C7: with unique ids, a row whose \<^verbatim>\<open>parentId\<close> is null, or is an id that no row has
  (or is the empty string, which the test takes for null), is one of the roots of the
  output; the builder returns (it raises nothing).
\<close>

theorem orphan_is_root:
  assumes d: "distinct (map id_f fs)" and r: "r \<in> set fs"
    and orphan: "parentId r = None \<or> parentId r = Some []
                 \<or> (\<exists>p. parentId r = Some p \<and> p \<notin> set (map id_f fs))"
  shows "\<exists>out. buildTree lc fs = Some out \<and> r \<in> set (map node_row out)"
proof -
  let ?m = "linked fs fs"
  let ?ns = "sort_by (\<lambda>a b. compare_nodes lc (row a) (row b)) (List.map_filter ?m (roots_of fs fs))"
  from buildTree_total [OF d, of lc] obtain out where out: "buildTree lc fs = Some out" by blast
  then have "map (copy_node lc ?m (length fs)) ?ns = map Some out"
    by (simp only: buildTree_eq sortNodes_Suc)
  then have rows: "map node_row out = map row ?ns" by (rule map_copy_rows)
  have "parent_in fs r = None" using orphan by (auto simp: parent_in_def)
  then have "id_f r \<in> set (roots_of fs fs)" using r by (auto simp: roots_of_def)
  moreover obtain node where "?m (id_f r) = Some node" "row node = r"
    using linked_row [OF d r, of fs] by simp
  ultimately have "node \<in> set (List.map_filter ?m (roots_of fs fs))" "row node = r"
    using map_filter_in by fast+
  then have "r \<in> set (map row ?ns)" by (auto simp: set_sort_by)
  then have "r \<in> set (map node_row out)" using rows by metis
  then show ?thesis using out by blast
qed

theorem orphan_is_root_witness:
  "distinct (map id_f orphan_rows)
   \<and> mk_file ''3'' ''a'' FOLDER (Some ''9'') \<in> set orphan_rows
   \<and> parentId (mk_file ''3'' ''a'' FOLDER (Some ''9'')) = Some ''9''
   \<and> ''9'' \<notin> set (map id_f orphan_rows)
   \<and> buildTree by_code orphan_rows =
       Some [Node (mk_file ''3'' ''a'' FOLDER (Some ''9'')) (Some []),
             Node (mk_file ''1'' ''b.js'' FILE None) None]
   \<and> mk_file ''3'' ''a'' FOLDER (Some ''9'')
       \<in> set (map node_row [Node (mk_file ''3'' ''a'' FOLDER (Some ''9'')) (Some []),
                              Node (mk_file ''1'' ''b.js'' FILE None) None])"
proof -
  let ?r = "mk_file ''3'' ''a'' FOLDER (Some ''9'')"
  have d: "distinct (map id_f orphan_rows)" by (simp add: orphan_rows_def mk_file_def)
  have r: "?r \<in> set orphan_rows" by (simp add: orphan_rows_def)
  have p: "parentId ?r = Some ''9''" by (simp add: mk_file_def)
  have n: "''9'' \<notin> set (map id_f orphan_rows)" by (simp add: orphan_rows_def mk_file_def)
  have "parentId ?r = None \<or> parentId ?r = Some []
      \<or> (\<exists>p. parentId ?r = Some p \<and> p \<notin> set (map id_f orphan_rows))"
    using p n by blast
  from orphan_is_root [OF d r this, of by_code] orphan_rows_tree
  have "?r \<in> set (map node_row [Node (mk_file ''3'' ''a'' FOLDER (Some ''9'')) (Some []),
                              Node (mk_file ''1'' ''b.js'' FILE None) None])"
    by auto
  then show ?thesis using d r p n orphan_rows_tree by blast
qed

section \<open>Children of files\<close>

text \<open>
  C10 (as the claim states it, refuted): ids are unique, the first row is a FILE whose
  id is the empty string, and the second row's \<^verbatim>\<open>parentId\<close> is that id. The test
  \<^verbatim>\<open>file.parentId && ...\<close> takes the empty string for no parent, so the second
  row is a root of the output, which has as many nodes as there are rows.
\<close>

theorem empty_parent_id_counterexample:
  "empty_id_rows = [mk_file [] ''a.js'' FILE None, mk_file ''2'' ''b.js'' FILE (Some [])]
   \<and> distinct (map id_f empty_id_rows)
   \<and> type_f (mk_file [] ''a.js'' FILE None) = FILE
   \<and> parentId (mk_file ''2'' ''b.js'' FILE (Some [])) = Some (id_f (mk_file [] ''a.js'' FILE None))
   \<and> buildTree by_code empty_id_rows =
       Some [Node (mk_file [] ''a.js'' FILE None) None,
             Node (mk_file ''2'' ''b.js'' FILE (Some [])) None]"
proof -
  have "buildTree by_code empty_id_rows =
       Some [Node (mk_file [] ''a.js'' FILE None) None,
             Node (mk_file ''2'' ''b.js'' FILE (Some [])) None]"
    by code_simp
  then show ?thesis by (simp add: empty_id_rows_def mk_file_def)
qed

text \<open>
  C10 (amended): with unique ids, a row whose \<^verbatim>\<open>parentId\<close> is a non-empty string and
  the id of a FILE row is nowhere in the output: no node of the output has its id,
  neither as a root nor as anyone's child. The builder returns, and its output has
  fewer nodes than there are rows.
\<close>

theorem child_of_file_dropped:
  assumes d: "distinct (map id_f fs)" and r: "r \<in> set fs" and q: "q \<in> set fs" "type_f q = FILE"
    and p: "parentId r = Some (id_f q)" "id_f q \<noteq> []"
  shows "\<exists>out. buildTree lc fs = Some out
       \<and> id_f r \<notin> set (map id_f (concat (map rows_of out)))
       \<and> length (concat (map rows_of out)) < length fs"
proof -
  let ?m = "linked fs fs"
  let ?R = "reach ?m (length fs) (roots_of fs fs)"
  from buildTree_total [OF d, of lc] obtain out where out: "buildTree lc fs = Some out" by blast
  then have sn: "sortNodes lc ?m (Suc (length fs)) (roots_of fs fs) = Some out"
    by (simp only: buildTree_eq)
  have pr: "parent_in fs r = Some (id_f q)" using p q(1) by (simp add: parent_in_def)
  have notroot: "id_f r \<notin> set (roots_of fs fs)"
  proof
    assume "id_f r \<in> set (roots_of fs fs)"
    then have "par fs (id_f r) = None" by (rule roots_par [OF d])
    then show False using par_row [OF d r] pr by simp
  qed
  have nokid: "id_f r \<notin> set (kids ?m c)" for c
  proof
    assume k: "id_f r \<in> set (kids ?m c)"
    then have "par fs (id_f r) = Some c" by (rule kids_par [OF d])
    then have c: "c = id_f q" using par_row [OF d r] pr by simp
    have "?m (id_f q) = Some \<lparr>row = q, children = None\<rparr>"
      using linked_row [OF d q(1), of fs] q(2) by simp
    then have "kids ?m c = []" using c by (simp add: kids_def)
    then show False using k by simp
  qed
  have notin: "id_f r \<notin> set ?R"
    using reach_subset [of ?m "length fs" "roots_of fs fs"] notroot nokid by blast
  have sub: "set ?R \<subseteq> set (map id_f fs) - {id_f r}"
    using reach_roots(2) [OF d, of "length fs"] notin by blast
  have "length (concat (map rows_of out)) \<le> length ?R" using sn by (rule sortNodes_size)
  also have "\<dots> = card (set ?R)" using reach_roots(1) [OF d, of "length fs"] by (simp add: distinct_card)
  also have "\<dots> \<le> card (set (map id_f fs) - {id_f r})" using sub by (simp add: card_mono)
  also have "\<dots> < card (set (map id_f fs))" using r by (intro card_Diff1_less) auto
  also have "\<dots> = length fs" using d by (simp add: distinct_card [of "map id_f fs", simplified])
  finally have size: "length (concat (map rows_of out)) < length fs" .
  have absent: "id_f r \<notin> set (map id_f (concat (map rows_of out)))"
  proof
    assume "id_f r \<in> set (map id_f (concat (map rows_of out)))"
    then obtain f where f: "f \<in> set (concat (map rows_of out))" "id_f f = id_f r"
      by (metis (no_types, lifting) imageE list.set_map)
    from sortNodes_rows [OF sn f(1)] obtain c node where c: "c \<in> set ?R" "?m c = Some node" "row node = f"
      by blast
    then have "c = id_f r" using linked_key [OF c(2)] f(2) by simp
    then show False using c(1) notin by simp
  qed
  show ?thesis using out size absent by blast
qed

theorem child_of_file_dropped_witness:
  "distinct (map id_f orphan_rows)
   \<and> mk_file ''2'' ''lost.js'' FILE (Some ''1'') \<in> set orphan_rows
   \<and> mk_file ''1'' ''b.js'' FILE None \<in> set orphan_rows
   \<and> type_f (mk_file ''1'' ''b.js'' FILE None) = FILE
   \<and> parentId (mk_file ''2'' ''lost.js'' FILE (Some ''1'')) = Some (id_f (mk_file ''1'' ''b.js'' FILE None))
   \<and> id_f (mk_file ''1'' ''b.js'' FILE None) \<noteq> []
   \<and> buildTree by_code orphan_rows =
       Some [Node (mk_file ''3'' ''a'' FOLDER (Some ''9'')) (Some []),
             Node (mk_file ''1'' ''b.js'' FILE None) None]
   \<and> ''2'' \<notin> set (map id_f (concat (map rows_of
         [Node (mk_file ''3'' ''a'' FOLDER (Some ''9'')) (Some []),
          Node (mk_file ''1'' ''b.js'' FILE None) None])))
   \<and> length (concat (map rows_of
         [Node (mk_file ''3'' ''a'' FOLDER (Some ''9'')) (Some []),
          Node (mk_file ''1'' ''b.js'' FILE None) None])) < length orphan_rows"
proof -
  let ?r = "mk_file ''2'' ''lost.js'' FILE (Some ''1'')"
  let ?q = "mk_file ''1'' ''b.js'' FILE None"
  have d: "distinct (map id_f orphan_rows)" by (simp add: orphan_rows_def mk_file_def)
  have r: "?r \<in> set orphan_rows" and q: "?q \<in> set orphan_rows" by (simp_all add: orphan_rows_def)
  have t: "type_f ?q = FILE" and p: "parentId ?r = Some (id_f ?q)" and ne: "id_f ?q \<noteq> []"
    and i: "id_f ?r = ''2''"
    by (simp_all add: mk_file_def)
  from child_of_file_dropped [OF d r q t p ne, of by_code] orphan_rows_tree i
  have "''2'' \<notin> set (map id_f (concat (map rows_of
         [Node (mk_file ''3'' ''a'' FOLDER (Some ''9'')) (Some []),
          Node (mk_file ''1'' ''b.js'' FILE None) None])))
     \<and> length (concat (map rows_of
         [Node (mk_file ''3'' ''a'' FOLDER (Some ''9'')) (Some []),
          Node (mk_file ''1'' ''b.js'' FILE None) None])) < length orphan_rows"
    by auto
  then show ?thesis using d r q t p ne orphan_rows_tree by blast
qed

section \<open>Reading the store\<close>

lemma obj_at_Obj: "a < length h \<Longrightarrow> h ! a = Obj r c \<Longrightarrow> obj_at h a = Some (r, c)"
  by (simp add: obj_at_def look_def)

lemma obj_at_SomeD: "obj_at h a = Some (r, c) \<Longrightarrow> a < length h \<and> h ! a = Obj r c"
  by (auto simp: obj_at_def look_def split: if_splits cell.splits)

lemma element_Arr: "a < length h \<Longrightarrow> h ! a = Arr xs \<Longrightarrow> i < length xs \<Longrightarrow> element h a i = Some (xs ! i)"
  by (simp add: element_def look_def)

lemma count_Arr: "a < length h \<Longrightarrow> h ! a = Arr xs \<Longrightarrow> count h a = Some (length xs)"
  by (simp add: count_def look_def)

lemma push_Arr: "a < length h \<Longrightarrow> h ! a = Arr xs \<Longrightarrow> push a x h = Some (h[a := Arr (xs @ [x])])"
  by (simp add: push_def look_def)

lemma rows_atD:
  assumes "rows_at h f = Some rows"
  shows "\<exists>fs. f < length h \<and> h ! f = Arr fs \<and> length fs = length rows
     \<and> (\<forall>k<length rows. \<exists>c. fs ! k < length h \<and> h ! (fs ! k) = Obj (rows ! k) c)"
proof -
  from assms obtain fs where fs: "f < length h" "h ! f = Arr fs"
    and th: "those (map (\<lambda>a. case obj_at h a of None \<Rightarrow> None | Some (r, c) \<Rightarrow> Some r) fs) = Some rows"
    by (auto simp: rows_at_def look_def split: if_splits cell.splits)
  from th have eq: "map (\<lambda>a. case obj_at h a of None \<Rightarrow> None | Some (r, c) \<Rightarrow> Some r) fs = map Some rows"
    by (simp only: those_eq_Some)
  then have len: "length fs = length rows" by (metis length_map)
  have "\<exists>c. fs ! k < length h \<and> h ! (fs ! k) = Obj (rows ! k) c" if k: "k < length rows" for k
  proof -
    from eq k len have "(case obj_at h (fs ! k) of None \<Rightarrow> None | Some (r, c) \<Rightarrow> Some r) = Some (rows ! k)"
      by (metis (no_types, lifting) nth_map)
    then obtain c where "obj_at h (fs ! k) = Some (rows ! k, c)"
      by (auto split: option.splits)
    then show ?thesis using obj_at_SomeD by blast
  qed
  with fs len show ?thesis by blast
qed

lemma rows_atI:
  assumes "f < length h" "h ! f = Arr fs" "length fs = length rows"
    "\<forall>k<length rows. \<exists>c. fs ! k < length h \<and> h ! (fs ! k) = Obj (rows ! k) c"
  shows "rows_at h f = Some rows"
proof -
  have "map (\<lambda>a. case obj_at h a of None \<Rightarrow> None | Some (r, c) \<Rightarrow> Some r) fs = map Some rows"
  proof (rule nth_equalityI)
    show "length (map (\<lambda>a. case obj_at h a of None \<Rightarrow> None | Some (r, c) \<Rightarrow> Some r) fs) = length (map Some rows)"
      using assms(3) by simp
  next
    fix k assume "k < length (map (\<lambda>a. case obj_at h a of None \<Rightarrow> None | Some (r, c) \<Rightarrow> Some r) fs)"
    then have k: "k < length rows" using assms(3) by simp
    then obtain c where "fs ! k < length h" "h ! (fs ! k) = Obj (rows ! k) c" using assms(4) by blast
    then have "obj_at h (fs ! k) = Some (rows ! k, c)" by (rule obj_at_Obj)
    then show "map (\<lambda>a. case obj_at h a of None \<Rightarrow> None | Some (r, c) \<Rightarrow> Some r) fs ! k = map Some rows ! k"
      using k assms(3) by simp
  qed
  then have "those (map (\<lambda>a. case obj_at h a of None \<Rightarrow> None | Some (r, c) \<Rightarrow> Some r) fs) = Some rows"
    by (simp only: those_eq_Some)
  then show ?thesis using assms(1,2) by (simp add: rows_at_def look_def)
qed

text \<open>A store that still begins with the cells of \<open>h0\<close> reads the rows as \<open>h0\<close> does.\<close>

lemma rows_at_take:
  assumes "rows_at h0 f = Some rows" "take (length h0) h = h0"
  shows "rows_at h f = Some rows"
proof -
  have le: "length h0 \<le> length h" using assms(2) by (metis length_take min.cobounded1)
  have same: "h ! a = h0 ! a" if "a < length h0" for a
    using that assms(2) by (metis nth_take)
  from rows_atD [OF assms(1)] obtain fs where fs: "f < length h0" "h0 ! f = Arr fs" "length fs = length rows"
    and el: "\<forall>k<length rows. \<exists>c. fs ! k < length h0 \<and> h0 ! (fs ! k) = Obj (rows ! k) c" by blast
  show ?thesis
  proof (rule rows_atI)
    show "f < length h" using fs(1) le by simp
    show "h ! f = Arr fs" using fs(1,2) same by simp
    show "length fs = length rows" by (rule fs(3))
    show "\<forall>k<length rows. \<exists>c. fs ! k < length h \<and> h ! (fs ! k) = Obj (rows ! k) c"
      using el same le by (metis less_le_trans)
  qed
qed

lemma read_row:
  assumes "rows_at h f = Some rows" "k < length rows"
  shows "\<exists>x c. element h f k = Some x \<and> obj_at h x = Some (rows ! k, c)"
proof -
  from rows_atD [OF assms(1)] obtain fs where fs: "f < length h" "h ! f = Arr fs" "length fs = length rows"
    and el: "\<forall>k<length rows. \<exists>c. fs ! k < length h \<and> h ! (fs ! k) = Obj (rows ! k) c" by blast
  from el assms(2) obtain c where c: "fs ! k < length h" "h ! (fs ! k) = Obj (rows ! k) c" by blast
  have "element h f k = Some (fs ! k)" using fs assms(2) by (simp add: element_Arr)
  moreover have "obj_at h (fs ! k) = Some (rows ! k, c)" using c by (rule obj_at_Obj)
  ultimately show ?thesis by blast
qed

lemma count_rows: "rows_at h f = Some rows \<Longrightarrow> count h f = Some (length rows)"
  using rows_atD [of h f rows] by (auto simp: count_Arr)

lemma forEach_rule:
  assumes "P 0 st"
    and "\<And>i s. i < n \<Longrightarrow> P i s \<Longrightarrow> \<exists>s'. body i s = Some s' \<and> P (Suc i) s'"
  shows "\<exists>s'. forEach body n st = Some s' \<and> P n s'"
  using assms(2)
proof (induction n)
  case 0
  then show ?case using assms(1) by (simp add: forEach_def)
next
  case (Suc n)
  from Suc.IH Suc.prems obtain s where s: "forEach body n st = Some s" "P n s"
    by (metis less_Suc_eq)
  from Suc.prems [of n s] s(2) obtain s' where "body n s = Some s'" "P (Suc n) s'" by blast
  then show ?case using s(1) by (simp add: forEach_def)
qed

section \<open>The two loops on the store\<close>

lemma rel_storeD:
  assumes "rel_store n0 nm h m" "nm i = Some a"
  shows "\<exists>node. m i = Some node \<and> node_ok n0 nm h i a node"
  using assms(1) [unfolded rel_store_def, rule_format, of i] assms(2) by simp

lemma rel_store_None:
  assumes "rel_store n0 nm h m"
  shows "(nm i = None) = (m i = None)"
  using assms [unfolded rel_store_def, rule_format, of i] by (cases "nm i") auto

text \<open>Two keys do not share an object, since the object holds the key.\<close>

lemma rel_store_inj:
  assumes "rel_store n0 nm h m" "nm i = Some a" "nm j = Some a"
  shows "i = j"
proof -
  from rel_storeD [OF assms(1,2)] obtain node where n: "node_ok n0 nm h i a node" by blast
  from rel_storeD [OF assms(1,3)] obtain node' where n': "node_ok n0 nm h j a node'" by blast
  have "\<exists>c. h ! a = Obj (row node) c" using n by (auto simp: node_ok_def split: option.splits)
  moreover have "\<exists>c. h ! a = Obj (row node') c" using n' by (auto simp: node_ok_def split: option.splits)
  ultimately have "row node = row node'" by auto
  then show ?thesis using n n' by (simp add: node_ok_def)
qed

lemma node_ok_append:
  assumes "node_ok n0 nm h i a node" "children node = None \<or> children node = Some []"
  shows "node_ok n0 nm' (h @ ext) i a node"
proof (cases "children node")
  case None
  then show ?thesis using assms(1) by (simp add: node_ok_def nth_append)
next
  case (Some cs)
  then have cs: "cs = []" using assms(2) by simp
  from assms(1) Some obtain ca xs where c: "Suc ca = a" "n0 < ca" "h ! a = Obj (row node) (Some ca)"
    "h ! ca = Arr xs" "map nm cs = map Some xs" and a: "n0 < a" "a < length h" "id_f (row node) = i"
    by (auto simp: node_ok_def)
  have "xs = []" using c(5) cs by simp
  moreover have "ca < length h" using c(1) a(2) by simp
  ultimately show ?thesis using Some cs c a by (simp add: node_ok_def nth_append)
qed

lemma index_file_store_step:
  assumes rel: "rel_store n0 nm h m" and ke: "kids_empty m" and n0: "n0 < length h"
    and el: "element h f k = Some x" and fi: "obj_at h x = Some (file, c)"
  shows "\<exists>ext nm'. index_file_store f k (h, nm) = Some (h @ ext, nm')
     \<and> rel_store n0 nm' (h @ ext)
          (m(id_f file \<mapsto> \<lparr>row = file, children = (if type_f file = FOLDER then Some [] else None)\<rparr>))"
proof (cases "type_f file = FOLDER")
  case True
  let ?ext = "[Arr [], Obj file (Some (length h))]"
  let ?nm = "nm(id_f file \<mapsto> Suc (length h))"
  let ?m = "m(id_f file \<mapsto> \<lparr>row = file, children = Some []\<rparr>)"
  have run: "index_file_store f k (h, nm) = Some (h @ ?ext, ?nm)"
    using el fi True by (simp add: index_file_store_def alloc_def)
  have "rel_store n0 ?nm (h @ ?ext) ?m"
    unfolding rel_store_def
  proof
    fix i
    show "case ?nm i of None \<Rightarrow> ?m i = None
          | Some a \<Rightarrow> \<exists>node. ?m i = Some node \<and> node_ok n0 ?nm (h @ ?ext) i a node"
    proof (cases "i = id_f file")
      case True
      have "node_ok n0 ?nm (h @ ?ext) i (Suc (length h)) \<lparr>row = file, children = Some []\<rparr>"
        using True n0 by (simp add: node_ok_def nth_append)
      then show ?thesis using True by simp
    next
      case False
      show ?thesis
      proof (cases "nm i")
        case None
        then show ?thesis using False rel_store_None [OF rel, of i] by simp
      next
        case (Some a)
        from rel_storeD [OF rel Some] obtain node where node: "m i = Some node" "node_ok n0 nm h i a node"
          by blast
        have "children node = None \<or> children node = Some []" using ke node(1) by (auto simp: kids_empty_def)
        from node_ok_append [OF node(2) this] show ?thesis using False Some node(1) by simp
      qed
    qed
  qed
  with run True show ?thesis by auto
next
  case False
  let ?ext = "[Obj file None]"
  let ?nm = "nm(id_f file \<mapsto> length h)"
  let ?m = "m(id_f file \<mapsto> \<lparr>row = file, children = None\<rparr>)"
  have run: "index_file_store f k (h, nm) = Some (h @ ?ext, ?nm)"
    using el fi False by (simp add: index_file_store_def alloc_def)
  have "rel_store n0 ?nm (h @ ?ext) ?m"
    unfolding rel_store_def
  proof
    fix i
    show "case ?nm i of None \<Rightarrow> ?m i = None
          | Some a \<Rightarrow> \<exists>node. ?m i = Some node \<and> node_ok n0 ?nm (h @ ?ext) i a node"
    proof (cases "i = id_f file")
      case True
      have "node_ok n0 ?nm (h @ ?ext) i (length h) \<lparr>row = file, children = None\<rparr>"
        using True n0 by (simp add: node_ok_def nth_append)
      then show ?thesis using True by simp
    next
      case False
      show ?thesis
      proof (cases "nm i")
        case None
        then show ?thesis using False rel_store_None [OF rel, of i] by simp
      next
        case (Some a)
        from rel_storeD [OF rel Some] obtain node where node: "m i = Some node" "node_ok n0 nm h i a node"
          by blast
        have "children node = None \<or> children node = Some []" using ke node(1) by (auto simp: kids_empty_def)
        from node_ok_append [OF node(2) this] show ?thesis using False Some node(1) by simp
      qed
    qed
  qed
  with run False show ?thesis by auto
qed

text \<open>A write to an array that is not the array of the node leaves the node as it
  stands.\<close>

lemma node_ok_update:
  assumes ok: "node_ok n0 nm h i a node" and arr: "w < length h" "h ! w = Arr ws"
    and other: "\<And>r. h ! a \<noteq> Obj r (Some w)"
  shows "node_ok n0 nm (h[w := Arr ws']) i a node"
proof (cases "children node")
  case None
  then have "h ! a = Obj (row node) None" using ok by (simp add: node_ok_def)
  then have "a \<noteq> w" using arr(2) by auto
  then show ?thesis using ok None by (simp add: node_ok_def)
next
  case (Some cs)
  then obtain ca xs where c: "Suc ca = a" "n0 < ca" "h ! a = Obj (row node) (Some ca)"
    "h ! ca = Arr xs" "map nm cs = map Some xs"
    using ok by (auto simp: node_ok_def)
  have aw: "a \<noteq> w" using c(3) arr(2) by auto
  have "ca \<noteq> w" using c(3) other by auto
  then show ?thesis using ok aw Some c by (simp add: node_ok_def)
qed

lemma rel_store_update:
  assumes rel: "rel_store n0 nm h m" and arr: "w < length h" "h ! w = Arr ws"
    and other: "\<And>i a r. nm i = Some a \<Longrightarrow> h ! a \<noteq> Obj r (Some w)"
  shows "rel_store n0 nm (h[w := Arr ws']) m"
  unfolding rel_store_def
proof
  fix i
  show "case nm i of None \<Rightarrow> m i = None
        | Some a \<Rightarrow> \<exists>node. m i = Some node \<and> node_ok n0 nm (h[w := Arr ws']) i a node"
  proof (cases "nm i")
    case None
    then show ?thesis using rel_store_None [OF rel, of i] by simp
  next
    case (Some a)
    from rel_storeD [OF rel Some] obtain node where node: "m i = Some node" "node_ok n0 nm h i a node"
      by blast
    have "node_ok n0 nm (h[w := Arr ws']) i a node"
      by (rule node_ok_update [OF node(2) arr]) (rule other [OF Some])
    then show ?thesis using Some node(1) by simp
  qed
qed

text \<open>The array of a node lies above \<open>n0\<close>, where \<^verbatim>\<open>rootNodes\<close> is.\<close>

lemma node_ok_array:
  assumes "node_ok n0 nm h i a node" "h ! a = Obj r (Some w)"
  shows "n0 < w \<and> Suc w = a \<and> (\<exists>cs xs. children node = Some cs \<and> h ! w = Arr xs \<and> map nm cs = map Some xs)"
  using assms by (cases "children node") (auto simp: node_ok_def)

lemma rel_store_roots:
  assumes rel: "rel_store n0 nm h m" and n0: "n0 < length h" "h ! n0 = Arr rs"
  shows "rel_store n0 nm (h[n0 := Arr rs']) m"
proof (rule rel_store_update [OF rel n0])
  fix i a r assume "nm i = Some a"
  from rel_storeD [OF rel this] obtain node where ok: "node_ok n0 nm h i a node" by blast
  show "h ! a \<noteq> Obj r (Some n0)"
  proof
    assume "h ! a = Obj r (Some n0)"
    from node_ok_array [OF ok this] show False by simp
  qed
qed

lemma link_file_store_root:
  assumes rel: "rel_store n0 nm h (nodeMap st)" and n0: "n0 < length h" "h ! n0 = Arr rs"
    and roots: "map nm (rootNodes st) = map Some rs"
    and key: "nm (id_f file) = Some a"
  shows "push n0 a h = Some (h[n0 := Arr (rs @ [a])])
     \<and> length (h[n0 := Arr (rs @ [a])]) = length h
     \<and> take n0 (h[n0 := Arr (rs @ [a])]) = take n0 h
     \<and> rel_store n0 nm (h[n0 := Arr (rs @ [a])]) (nodeMap (st\<lparr>rootNodes := rootNodes st @ [id_f file]\<rparr>))
     \<and> (\<exists>rs'. h[n0 := Arr (rs @ [a])] ! n0 = Arr rs'
           \<and> map nm (rootNodes (st\<lparr>rootNodes := rootNodes st @ [id_f file]\<rparr>)) = map Some rs')"
  using push_Arr [OF n0] rel_store_roots [OF rel n0] n0(1) roots key by simp

lemma link_file_store_step:
  assumes rel: "rel_store n0 nm h (nodeMap st)" and n0: "n0 < length h" "h ! n0 = Arr rs"
    and roots: "map nm (rootNodes st) = map Some rs"
    and el: "element h f k = Some x" and fi: "obj_at h x = Some (file, c)"
    and key: "nm (id_f file) = Some a"
  shows "\<exists>h'. link_file_store f n0 nm k h = Some h' \<and> length h' = length h \<and> take n0 h' = take n0 h
     \<and> rel_store n0 nm h' (nodeMap (link_file file st))
     \<and> (\<exists>rs'. h' ! n0 = Arr rs' \<and> map nm (rootNodes (link_file file st)) = map Some rs')"
proof -
  note root = link_file_store_root [OF rel n0 roots key]
  show ?thesis
  proof (cases "parentId file")
    case None
    have "link_file_store f n0 nm k h = push n0 a h"
      using el fi key None by (simp add: link_file_store_def)
    moreover have "link_file file st = st\<lparr>rootNodes := rootNodes st @ [id_f file]\<rparr>"
      using None by (simp add: link_file_def)
    ultimately show ?thesis using root by auto
  next
    case (Some p)
    show ?thesis
    proof (cases "p \<noteq> [] \<and> nm p \<noteq> None")
      case False
      then have f': "\<not> (p \<noteq> [] \<and> nodeMap st p \<noteq> None)" using rel_store_None [OF rel, of p] by simp
      have "link_file_store f n0 nm k h = push n0 a h"
        using el fi key Some False by (auto simp: link_file_store_def)
      moreover have "link_file file st = st\<lparr>rootNodes := rootNodes st @ [id_f file]\<rparr>"
        using Some f' by (auto simp: link_file_def)
      ultimately show ?thesis using root by auto
    next
      case True
      then obtain pa where pa: "nm p = Some pa" and p: "p \<noteq> []" by auto
      from rel_storeD [OF rel pa] obtain parent where parent: "nodeMap st p = Some parent"
        and ok: "node_ok n0 nm h p pa parent" by blast
      show ?thesis
      proof (cases "children parent")
        case None
        then have "obj_at h pa = Some (row parent, None)"
          using ok by (simp add: node_ok_def obj_at_Obj)
        then have "link_file_store f n0 nm k h = Some h"
          using el fi key Some p pa by (simp add: link_file_store_def)
        moreover have "link_file file st = st"
          using Some p parent None by (simp add: link_file_def)
        ultimately show ?thesis using rel n0 roots by simp
      next
        case (Some cs)
        from ok Some obtain ca xs where c: "Suc ca = pa" "n0 < ca" "h ! pa = Obj (row parent) (Some ca)"
          "h ! ca = Arr xs" "map nm cs = map Some xs" and pa_len: "pa < length h" and pid: "id_f (row parent) = p"
          by (auto simp: node_ok_def)
        have ca_len: "ca < length h" using c(1) pa_len by simp
        let ?h = "h[ca := Arr (xs @ [a])]"
        let ?parent = "parent\<lparr>children := Some (cs @ [id_f file])\<rparr>"
        have "obj_at h pa = Some (row parent, Some ca)" using pa_len c(3) by (rule obj_at_Obj)
        then have run: "link_file_store f n0 nm k h = Some ?h"
          using el fi key \<open>parentId file = Some p\<close> p pa push_Arr [OF ca_len c(4)]
          by (simp add: link_file_store_def)
        have fn: "link_file file st = st\<lparr>nodeMap := (nodeMap st)(p \<mapsto> ?parent)\<rparr>"
          using \<open>parentId file = Some p\<close> p parent Some by (simp add: link_file_def)
        have rel': "rel_store n0 nm ?h ((nodeMap st)(p \<mapsto> ?parent))"
          unfolding rel_store_def
        proof
          fix i
          show "case nm i of None \<Rightarrow> ((nodeMap st)(p \<mapsto> ?parent)) i = None
                | Some b \<Rightarrow> \<exists>node. ((nodeMap st)(p \<mapsto> ?parent)) i = Some node \<and> node_ok n0 nm ?h i b node"
          proof (cases "i = p")
            case True
            have "pa \<noteq> ca" using c(1) by simp
            then have "node_ok n0 nm ?h p pa ?parent"
              using ok c ca_len key by (simp add: node_ok_def)
            then show ?thesis using True pa by simp
          next
            case False
            show ?thesis
            proof (cases "nm i")
              case None
              then show ?thesis using False rel_store_None [OF rel, of i] by simp
            next
              case (Some b)
              from rel_storeD [OF rel Some] obtain node where node: "nodeMap st i = Some node"
                "node_ok n0 nm h i b node" by blast
              have "b \<noteq> pa" using rel_store_inj [OF rel Some, of p] pa False by auto
              have "h ! b \<noteq> Obj r (Some ca)" for r
              proof
                assume "h ! b = Obj r (Some ca)"
                from node_ok_array [OF node(2) this] have "Suc ca = b" by simp
                then show False using c(1) \<open>b \<noteq> pa\<close> by simp
              qed
              from node_ok_update [OF node(2) ca_len c(4) this]
              show ?thesis using False Some node(1) by simp
            qed
          qed
        qed
        have "n0 \<noteq> ca" using c(2) by simp
        then have r': "?h ! n0 = Arr rs" using n0 by simp
        have "take n0 ?h = take n0 h" using c(2) by simp
        then show ?thesis using run fn rel' r' roots by simp
      qed
    qed
  qed
qed

lemma kids_empty_linked_Nil: "kids_empty (linked fs [])"
  by (auto simp: kids_empty_def linked_def split: option.splits if_splits)

lemma linked_Nil_snoc:
  "linked (fs @ [g]) [] = (linked fs [])(id_f g \<mapsto> \<lparr>row = g, children = (if type_f g = FOLDER then Some [] else None)\<rparr>)"
  by (rule ext) (simp add: linked_Nil)

lemma first_loop_store:
  assumes rows: "rows_at h f = Some rows"
  shows "\<exists>h1 nm. forEach (index_file_store f) (length rows) (h @ [Arr []], Map.empty) = Some (h1, nm)
     \<and> take (length h) h1 = h \<and> length h < length h1 \<and> h1 ! length h = Arr []
     \<and> rel_store (length h) nm h1 (linked rows [])"
proof -
  let ?P = "\<lambda>k s. case s of (h1, nm) \<Rightarrow>
      take (length h) h1 = h \<and> length h < length h1 \<and> h1 ! length h = Arr []
      \<and> rel_store (length h) nm h1 (linked (take k rows) [])"
  have start: "?P 0 (h @ [Arr []], Map.empty)"
    by (simp add: rel_store_def linked_def)
  have step: "\<exists>s'. index_file_store f k s = Some s' \<and> ?P (Suc k) s'"
    if k: "k < length rows" and P: "?P k s" for k s
  proof -
    obtain h1 nm where s: "s = (h1, nm)" by (cases s)
    from P s have h1: "take (length h) h1 = h" "length h < length h1" "h1 ! length h = Arr []"
      and rel: "rel_store (length h) nm h1 (linked (take k rows) [])" by auto
    have "rows_at h1 f = Some rows" using rows h1(1) by (rule rows_at_take)
    from read_row [OF this k] obtain x c where x: "element h1 f k = Some x"
      "obj_at h1 x = Some (rows ! k, c)" by blast
    from index_file_store_step [OF rel kids_empty_linked_Nil h1(2) x]
    obtain ext nm' where run: "index_file_store f k (h1, nm) = Some (h1 @ ext, nm')"
      and rel': "rel_store (length h) nm' (h1 @ ext)
          ((linked (take k rows) [])(id_f (rows ! k) \<mapsto>
             \<lparr>row = rows ! k, children = (if type_f (rows ! k) = FOLDER then Some [] else None)\<rparr>))"
      by blast
    have "take (Suc k) rows = take k rows @ [rows ! k]" using k by (rule take_Suc_conv_app_nth)
    then have "rel_store (length h) nm' (h1 @ ext) (linked (take (Suc k) rows) [])"
      using rel' by (simp only: linked_Nil_snoc)
    moreover have "take (length h) (h1 @ ext) = h" using h1(1,2) by simp
    moreover have "(h1 @ ext) ! length h = Arr []" using h1(2,3) by (simp add: nth_append)
    ultimately have "?P (Suc k) (h1 @ ext, nm')" using h1(2) by simp
    with run s show ?thesis by blast
  qed
  have "\<exists>s'. forEach (index_file_store f) (length rows) (h @ [Arr []], Map.empty) = Some s' \<and> ?P (length rows) s'"
    by (rule forEach_rule [where P = ?P, OF start step])
  then obtain s' where s': "forEach (index_file_store f) (length rows) (h @ [Arr []], Map.empty) = Some s'"
    "?P (length rows) s'" by blast
  obtain h1 nm where "s' = (h1, nm)" by (cases s')
  then show ?thesis using s' by auto
qed

lemma second_loop_store:
  assumes rows: "rows_at h f = Some rows"
    and h1: "take (length h) h1 = h" "length h < length h1" "h1 ! length h = Arr []"
    and rel: "rel_store (length h) nm h1 (linked rows [])"
  shows "\<exists>h2. forEach (link_file_store f (length h) nm) (length rows) h1 = Some h2
     \<and> take (length h) h2 = h \<and> length h < length h2
     \<and> rel_store (length h) nm h2 (linked rows rows)
     \<and> (\<exists>rs. h2 ! length h = Arr rs \<and> map nm (roots_of rows rows) = map Some rs)"
proof -
  let ?P = "\<lambda>k h'. take (length h) h' = h \<and> length h < length h'
      \<and> rel_store (length h) nm h' (linked rows (take k rows))
      \<and> (\<exists>rs. h' ! length h = Arr rs \<and> map nm (roots_of rows (take k rows)) = map Some rs)"
  have start: "?P 0 h1" using h1 rel by (simp add: roots_of_def)
  have step: "\<exists>h''. link_file_store f (length h) nm k h' = Some h'' \<and> ?P (Suc k) h''"
    if k: "k < length rows" and P: "?P k h'" for k h'
  proof -
    let ?st = "\<lparr>files = rows, nodeMap = linked rows (take k rows), rootNodes = roots_of rows (take k rows)\<rparr>"
    from P obtain rs where h': "take (length h) h' = h" "length h < length h'"
      and rel': "rel_store (length h) nm h' (nodeMap ?st)"
      and rs: "h' ! length h = Arr rs" "map nm (rootNodes ?st) = map Some rs" by auto
    have "rows_at h' f = Some rows" using rows h'(1) by (rule rows_at_take)
    from read_row [OF this k] obtain x c where x: "element h' f k = Some x"
      "obj_at h' x = Some (rows ! k, c)" by blast
    have "id_f (rows ! k) \<in> set (map id_f rows)" using k by simp
    then have "linked rows (take k rows) (id_f (rows ! k)) \<noteq> None"
      by (simp only: linked_dom)
    then obtain a where a: "nm (id_f (rows ! k)) = Some a"
      using rel_store_None [OF rel', of "id_f (rows ! k)"] by auto
    from link_file_store_step [OF rel' h'(2) rs x a]
    obtain h'' where run: "link_file_store f (length h) nm k h' = Some h''"
      and len: "length h'' = length h'" and tk: "take (length h) h'' = take (length h) h'"
      and rel'': "rel_store (length h) nm h'' (nodeMap (link_file (rows ! k) ?st))"
      and rs': "\<exists>rs'. h'' ! length h = Arr rs' \<and> map nm (rootNodes (link_file (rows ! k) ?st)) = map Some rs'"
      by blast
    have t: "take (Suc k) rows = take k rows @ [rows ! k]" using k by (rule take_Suc_conv_app_nth)
    have fn: "nodeMap (link_file (rows ! k) ?st) = linked rows (take (Suc k) rows)"
      "rootNodes (link_file (rows ! k) ?st) = roots_of rows (take (Suc k) rows)"
      using link_file_step [of ?st rows "take k rows" "rows ! k"] t by simp_all
    have "?P (Suc k) h''" using len tk h' rel'' rs' by (simp add: fn)
    with run show ?thesis by blast
  qed
  have "\<exists>h2. forEach (link_file_store f (length h) nm) (length rows) h1 = Some h2 \<and> ?P (length rows) h2"
    by (rule forEach_rule [where P = ?P, OF start step]) 
  then show ?thesis by simp
qed

section \<open>Sorting in the store\<close>

lemma insort_by_rel:
  assumes "\<And>x x' y y'. R x y \<Longrightarrow> R x' y' \<Longrightarrow> c1 x x' = c2 y y'"
    and "R x y" "list_all2 R xs ys"
  shows "list_all2 R (insort_by c1 x xs) (insort_by c2 y ys)"
  using assms(3)
proof (induction rule: list_all2_induct)
  case Nil
  then show ?case using assms(2) by simp
next
  case (Cons a as b bs)
  have "c1 x a = c2 y b" using assms(2) Cons.hyps(1) by (rule assms(1))
  then show ?case using Cons assms(2) by simp
qed

lemma sort_by_rel:
  assumes "\<And>x x' y y'. R x y \<Longrightarrow> R x' y' \<Longrightarrow> c1 x x' = c2 y y'"
    and "list_all2 R xs ys"
  shows "list_all2 R (sort_by c1 xs) (sort_by c2 ys)"
  using assms(2) unfolding sort_by_def
proof (induction rule: list_all2_induct)
  case Nil
  then show ?case by simp
next
  case (Cons a as b bs)
  then show ?case using insort_by_rel [of R c1 c2, OF assms(1)] by simp
qed

lemma insort_by_map:
  assumes "\<And>a b. c (f a) (f b) = c' a b"
  shows "map f (insort_by c' x ys) = insort_by c (f x) (map f ys)"
  by (induction ys) (simp_all add: assms)

lemma sort_by_map:
  assumes "\<And>a b. c (f a) (f b) = c' a b"
  shows "map f (sort_by c' xs) = sort_by c (map f xs)"
  unfolding sort_by_def by (induction xs) (simp_all add: insort_by_map [of c f c', OF assms])

lemma keyed_objs:
  assumes "\<forall>x\<in>set xs. \<exists>r c. obj_at h x = Some (r, c)"
  shows "keyed h xs = Some (map (\<lambda>x. (x, row_at h x)) xs)"
proof -
  have "map (\<lambda>a. case obj_at h a of None \<Rightarrow> None | Some (r, c) \<Rightarrow> Some (a, r)) xs
      = map Some (map (\<lambda>x. (x, row_at h x)) xs)"
    using assms by (induction xs) (auto simp: row_at_def)
  then show ?thesis unfolding keyed_def by (simp only: those_eq_Some)
qed

lemma sorted_refs_objs:
  assumes "\<forall>x\<in>set xs. \<exists>r c. obj_at h x = Some (r, c)"
  shows "sorted_refs lc h xs = sort_by (cmp_refs lc h) xs"
proof -
  have "map (\<lambda>x. (x, row_at h x)) (sort_by (cmp_refs lc h) xs)
      = sort_by (\<lambda>p q. compare_nodes lc (snd p) (snd q)) (map (\<lambda>x. (x, row_at h x)) xs)"
    by (rule sort_by_map) (simp add: cmp_refs_def)
  then have "map fst (sort_by (\<lambda>p q. compare_nodes lc (snd p) (snd q)) (map (\<lambda>x. (x, row_at h x)) xs))
      = map fst (map (\<lambda>x. (x, row_at h x)) (sort_by (cmp_refs lc h) xs))" by simp
  also have "\<dots> = sort_by (cmp_refs lc h) xs" by (simp add: comp_def)
  finally show ?thesis using keyed_objs [OF assms] by (simp add: sorted_refs_def)
qed

lemma set_sorted_refs:
  assumes "\<forall>x\<in>set xs. \<exists>r c. obj_at h x = Some (r, c)"
  shows "set (sorted_refs lc h xs) = set xs" "length (sorted_refs lc h xs) = length xs"
  using sorted_refs_objs [OF assms] by (simp_all add: set_sort_by length_sort_by)

lemma sorted_refs_idem:
  assumes "consistent lc" "\<forall>x\<in>set xs. \<exists>r c. obj_at h x = Some (r, c)"
  shows "sorted_refs lc h (sorted_refs lc h xs) = sorted_refs lc h xs"
proof -
  have objs: "\<forall>x\<in>set (sorted_refs lc h xs). \<exists>r c. obj_at h x = Some (r, c)"
    using assms(2) set_sorted_refs(1) [OF assms(2)] by simp
  have "sort_by (cmp_refs lc h) (sort_by (cmp_refs lc h) xs) = sort_by (cmp_refs lc h) xs"
  proof (rule sort_by_idem)
    show "cmp_refs lc h a b \<le> 0 \<or> cmp_refs lc h b a \<le> 0" for a b
      using compare_nodes_total [OF assms(1)] by (simp add: cmp_refs_def)
    show "cmp_refs lc h a b \<le> 0 \<Longrightarrow> cmp_refs lc h b c \<le> 0 \<Longrightarrow> cmp_refs lc h a c \<le> 0" for a b c
      using compare_nodes_trans [OF assms(1)] unfolding cmp_refs_def by blast
  qed
  then show ?thesis using sorted_refs_objs [OF objs] sorted_refs_objs [OF assms(2)] by simp
qed

lemma keyed_cong:
  assumes "\<And>x. x \<in> set xs \<Longrightarrow> obj_at h x = obj_at h' x"
  shows "keyed h xs = keyed h' xs"
proof -
  have "map (\<lambda>a. case obj_at h a of None \<Rightarrow> None | Some (r, c) \<Rightarrow> Some (a, r)) xs
      = map (\<lambda>a. case obj_at h' a of None \<Rightarrow> None | Some (r, c) \<Rightarrow> Some (a, r)) xs"
    by (rule map_cong) (simp_all add: assms)
  then show ?thesis by (simp only: keyed_def)
qed

lemma sorted_refs_cong:
  "(\<And>x. x \<in> set xs \<Longrightarrow> obj_at h x = obj_at h' x) \<Longrightarrow> sorted_refs lc h xs = sorted_refs lc h' xs"
  unfolding sorted_refs_def using keyed_cong [of xs h h'] by simp

section \<open>Stores that the sorting reaches\<close>

lemma evolves_refl: "evolves lc n0 h2 h h"
  by (simp add: evolves_def)

lemma evolves_trans:
  assumes "evolves lc n0 h2 h h'" "evolves lc n0 h2 h' h''"
  shows "evolves lc n0 h2 h h''"
  unfolding evolves_def
proof (intro conjI allI impI)
  show "length h \<le> length h''" using assms by (simp add: evolves_def)
next
  fix a assume a: "a < length h"
  then have a': "a < length h'" using assms(1) by (simp add: evolves_def)
  from assms(1) a have 1: "h' ! a = h ! a \<or>
      (n0 \<le> a \<and> a < length h2 \<and> (\<exists>xs. h2 ! a = Arr xs \<and> h' ! a = Arr (sorted_refs lc h2 xs)))"
    by (simp add: evolves_def)
  from assms(2) a' have 2: "h'' ! a = h' ! a \<or>
      (n0 \<le> a \<and> a < length h2 \<and> (\<exists>xs. h2 ! a = Arr xs \<and> h'' ! a = Arr (sorted_refs lc h2 xs)))"
    by (simp add: evolves_def)
  from 1 2 show "h'' ! a = h ! a \<or>
      (n0 \<le> a \<and> a < length h2 \<and> (\<exists>xs. h2 ! a = Arr xs \<and> h'' ! a = Arr (sorted_refs lc h2 xs)))"
    by auto
qed

lemma evolves_append: "evolves lc n0 h2 h (h @ ext)"
  by (simp add: evolves_def nth_append)

lemma evolves_length: "evolves lc n0 h2 h h' \<Longrightarrow> length h \<le> length h'"
  by (simp add: evolves_def)

lemma evolves_obj:
  assumes "evolves lc n0 h2 h h'" "a < length h" "h ! a = Obj r c" "a < length h2 \<longrightarrow> h2 ! a = Obj r c"
  shows "h' ! a = Obj r c"
  using assms unfolding evolves_def by auto

lemma evolves_new:
  assumes "evolves lc n0 h2 h h'" "length h2 \<le> a" "a < length h"
  shows "h' ! a = h ! a"
  using assms unfolding evolves_def by auto

lemma evolves_below:
  assumes "evolves lc n0 h2 h h'" "a < n0" "a < length h"
  shows "h' ! a = h ! a"
  using assms unfolding evolves_def by auto

lemma evolves_sorted:
  assumes "evolves lc n0 h2 h h'" "a < length h" "h2 ! a = Arr xs" "h ! a = Arr (sorted_refs lc h2 xs)"
  shows "h' ! a = Arr (sorted_refs lc h2 xs)"
  using assms unfolding evolves_def by auto

lemma evolves_arr:
  assumes "evolves lc n0 h2 h2 h" "a < length h2" "h2 ! a = Arr xs"
  shows "h ! a = Arr xs \<or> h ! a = Arr (sorted_refs lc h2 xs)"
  using assms unfolding evolves_def by auto

lemma evolves_take:
  assumes "evolves lc n0 h2 h h'" "n0 \<le> length h"
  shows "take n0 h' = take n0 h"
proof (rule nth_equalityI)
  show "length (take n0 h') = length (take n0 h)" using assms by (simp add: evolves_def)
next
  fix a assume "a < length (take n0 h')"
  then have a: "a < n0" "a < length h" using assms by (simp_all add: evolves_def)
  then show "take n0 h' ! a = take n0 h ! a" using evolves_below [OF assms(1) a] by simp
qed

section \<open>Reading the output of sortNodes\<close>

lemma cell_closed_mono: "cell_closed b n c \<Longrightarrow> n \<le> n' \<Longrightarrow> cell_closed b n' c"
  by (cases c) (auto simp: cell_closed_def split: option.splits)

lemma closed_fromD: "closed_from b h \<Longrightarrow> b \<le> a \<Longrightarrow> a < length h \<Longrightarrow> cell_closed b (length h) (h ! a)"
  by (simp add: closed_from_def)

lemma closed_from_append:
  assumes "closed_from b h" "cell_closed b (length h) c"
  shows "closed_from b (h @ [c])"
  unfolding closed_from_def
proof (intro allI impI)
  fix a assume a: "b \<le> a \<and> a < length (h @ [c])"
  show "cell_closed b (length (h @ [c])) ((h @ [c]) ! a)"
  proof (cases "a < length h")
    case True
    then have "cell_closed b (length h) (h ! a)" using assms(1) a by (simp add: closed_from_def)
    then have "cell_closed b (length (h @ [c])) (h ! a)" by (rule cell_closed_mono) simp
    then show ?thesis using True by (simp add: nth_append)
  next
    case False
    then have "a = length h" using a by simp
    moreover have "cell_closed b (length (h @ [c])) c" using assms(2) by (rule cell_closed_mono) simp
    ultimately show ?thesis by simp
  qed
qed

lemma closed_from_update:
  assumes "closed_from b h" "w < b"
  shows "closed_from b (h[w := c])"
  unfolding closed_from_def
proof (intro allI impI)
  fix a assume a: "b \<le> a \<and> a < length (h[w := c])"
  then have "a \<noteq> w" "a < length h" using assms(2) by simp_all
  then have "(h[w := c]) ! a = h ! a" by simp
  moreover have "cell_closed b (length h) (h ! a)" using assms(1) a by (simp add: closed_from_def)
  ultimately show "cell_closed b (length (h[w := c])) ((h[w := c]) ! a)" by simp
qed

lemma closed_Arr: "closed_from b h \<Longrightarrow> b \<le> a \<Longrightarrow> a < length h \<Longrightarrow> h ! a = Arr xs \<Longrightarrow> x \<in> set xs \<Longrightarrow> b \<le> x \<and> x < length h"
  using closed_fromD [of b h a] by (simp add: cell_closed_def)

lemma closed_Obj: "closed_from b h \<Longrightarrow> b \<le> a \<Longrightarrow> a < length h \<Longrightarrow> h ! a = Obj r (Some ca) \<Longrightarrow> b \<le> ca \<and> ca < length h"
  using closed_fromD [of b h a] by (simp add: cell_closed_def)

lemma forest_at_stable:
  assumes cl: "closed_from b h" and len: "length h \<le> length h'"
    and same: "\<And>a. b \<le> a \<Longrightarrow> a < length h \<Longrightarrow> h' ! a = h ! a"
  shows "b \<le> a \<Longrightarrow> a < length h \<Longrightarrow> forest_at n h' a = forest_at n h a"
proof (induction n arbitrary: a)
  case 0
  then show ?case by simp
next
  case (Suc n)
  have cell: "h' ! a = h ! a" using Suc.prems by (rule same)
  have la: "look h' a = Some (h ! a)" "look h a = Some (h ! a)"
    using Suc.prems len cell by (simp_all add: look_def)
  show ?case
  proof (cases "h ! a")
    case (Obj r c)
    then show ?thesis using la by simp
  next
    case (Arr xs)
    have "tree_with (forest_at n h') h' x = tree_with (forest_at n h) h x" if x: "x \<in> set xs" for x
    proof -
      have xb: "b \<le> x" "x < length h"
        using closed_Arr [OF cl Suc.prems Arr x] by simp_all
      have o: "obj_at h' x = obj_at h x" using xb len same [OF xb] by (simp add: obj_at_def look_def)
      show ?thesis
      proof (cases "obj_at h x")
        case None
        then show ?thesis using o by (simp add: tree_with_def)
      next
        case (Some p)
        obtain r c where p: "p = (r, c)" by (cases p)
        show ?thesis
        proof (cases c)
          case None
          then show ?thesis using o Some p by (simp add: tree_with_def)
        next
          case (Some ca)
          have "h ! x = Obj r (Some ca)" using \<open>obj_at h x = Some p\<close> p Some obj_at_SomeD by blast
          then have "b \<le> ca" "ca < length h"
            using closed_Obj [OF cl xb] by simp_all
          then have "forest_at n h' ca = forest_at n h ca" by (rule Suc.IH)
          then show ?thesis using o \<open>obj_at h x = Some p\<close> p Some by (simp add: tree_with_def)
        qed
      qed
    qed
    then have "map (tree_with (forest_at n h') h') xs = map (tree_with (forest_at n h) h) xs"
      by simp
    then have "those (map (tree_with (forest_at n h') h') xs) = those (map (tree_with (forest_at n h) h) xs)"
      by (rule arg_cong)
    then show ?thesis using la Arr by simp
  qed
qed

lemma tree_with_stable:
  assumes cl: "closed_from b h" and len: "length h \<le> length h'"
    and same: "\<And>a. b \<le> a \<Longrightarrow> a < length h \<Longrightarrow> h' ! a = h ! a"
    and x: "b \<le> x" "x < length h"
  shows "tree_with (forest_at n h') h' x = tree_with (forest_at n h) h x"
proof -
  have o: "obj_at h' x = obj_at h x" using x len same [OF x] by (simp add: obj_at_def look_def)
  show ?thesis
  proof (cases "obj_at h x")
    case None
    then show ?thesis using o by (simp add: tree_with_def)
  next
    case (Some p)
    obtain r c where p: "p = (r, c)" by (cases p)
    show ?thesis
    proof (cases c)
      case None
      then show ?thesis using o Some p by (simp add: tree_with_def)
    next
      case (Some ca)
      have "h ! x = Obj r (Some ca)" using \<open>obj_at h x = Some p\<close> p Some obj_at_SomeD by blast
      then have "b \<le> ca" "ca < length h"
        using closed_Obj [OF cl x] by simp_all
      then have "forest_at n h' ca = forest_at n h ca"
        using forest_at_stable [of b h h' ca n, OF cl len same] by blast
      then show ?thesis using o \<open>obj_at h x = Some p\<close> p Some by (simp add: tree_with_def)
    qed
  qed
qed

section \<open>sortNodes on the store and on ids\<close>

lemma refs_nodes:
  assumes rel: "rel_store n0 nm h2 m"
  shows "map nm cs = map Some xs \<Longrightarrow> list_all2 (same_node n0 nm h2 m) xs (List.map_filter m cs)"
proof (induction cs arbitrary: xs)
  case Nil
  then show ?case by (simp add: List.map_filter_simps)
next
  case (Cons i cs)
  then obtain x xs' where xs: "xs = x # xs'" "nm i = Some x" "map nm cs = map Some xs'"
    by (cases xs) auto
  from rel_storeD [OF rel xs(2)] obtain node where node: "m i = Some node" "node_ok n0 nm h2 i x node"
    by blast
  have "same_node n0 nm h2 m x node" using xs(2) node by (auto simp: same_node_def)
  then show ?case using Cons.IH [OF xs(3)] xs(1) node(1) by (simp add: List.map_filter_simps)
qed

lemma same_node_obj:
  assumes "same_node n0 nm h2 m x node"
  shows "x < length h2 \<and> (\<exists>c. h2 ! x = Obj (row node) c)"
  using assms by (cases "children node") (auto simp: same_node_def node_ok_def)

lemma same_node_leaf:
  assumes "same_node n0 nm h2 m x node" "children node = None"
  shows "x < length h2 \<and> h2 ! x = Obj (row node) None"
  using assms by (auto simp: same_node_def node_ok_def)

lemma same_node_folder:
  assumes "same_node n0 nm h2 m x node" "children node = Some cs"
  shows "x < length h2 \<and> (\<exists>ca xs. n0 \<le> ca \<and> ca < length h2 \<and> h2 ! x = Obj (row node) (Some ca)
      \<and> h2 ! ca = Arr xs \<and> map nm cs = map Some xs)"
proof -
  from assms obtain i ca xs where "Suc ca = x" "n0 < ca" "x < length h2" "h2 ! x = Obj (row node) (Some ca)"
    "h2 ! ca = Arr xs" "map nm cs = map Some xs"
    by (auto simp: same_node_def node_ok_def)
  then show ?thesis by auto
qed

lemma evolved_obj_at:
  assumes "evolves lc n0 h2 h2 h" "x < length h2" "h2 ! x = Obj r c"
  shows "obj_at h x = Some (r, c)"
proof -
  have "h ! x = Obj r c" using evolves_obj [OF assms(1,2,3)] assms(3) by simp
  moreover have "x < length h" using assms(1,2) evolves_length by fastforce
  ultimately show ?thesis by (rule obj_at_Obj [rotated])
qed

lemma sort_store_eq:
  assumes "ca < length h" "h ! ca = Arr cur" "keyed h cur = Some ps"
  shows "sort_store lc ca h = Some (h[ca := Arr (sorted_refs lc h cur)])"
  using assms by (simp add: sort_store_def sorted_refs_def look_def)

lemma sort_store_evolved:
  assumes cons: "consistent lc" and ev: "evolves lc n0 h2 h2 h"
    and ca: "n0 \<le> ca" "ca < length h2" "h2 ! ca = Arr xs"
    and objs: "\<forall>x\<in>set xs. x < length h2 \<and> (\<exists>r c. h2 ! x = Obj r c)"
  shows "sort_store lc ca h = Some (h[ca := Arr (sorted_refs lc h2 xs)])
     \<and> evolves lc n0 h2 h (h[ca := Arr (sorted_refs lc h2 xs)])"
proof -
  have objs2: "\<forall>x\<in>set xs. \<exists>r c. obj_at h2 x = Some (r, c)"
    using objs obj_at_Obj by blast
  have same: "obj_at h x = obj_at h2 x" if "x \<in> set xs" for x
  proof -
    from objs that obtain r c where x: "x < length h2" "h2 ! x = Obj r c" by blast
    then show ?thesis using evolved_obj_at [OF ev x] obj_at_Obj [OF x] by simp
  qed
  have len: "ca < length h" using ca(2) ev evolves_length by fastforce
  from evolves_arr [OF ev ca(2,3)] obtain cur where cur: "h ! ca = Arr cur"
    "cur = xs \<or> cur = sorted_refs lc h2 xs" by blast
  have setcur: "set cur = set xs" using cur(2) set_sorted_refs(1) [OF objs2] by auto
  have k: "keyed h cur = keyed h2 cur" by (rule keyed_cong) (simp add: same setcur)
  have objs_cur: "\<forall>x\<in>set cur. \<exists>r c. obj_at h2 x = Some (r, c)" using objs2 setcur by simp
  have "sorted_refs lc h cur = sorted_refs lc h2 cur"
    by (rule sorted_refs_cong) (simp add: same setcur)
  also have "\<dots> = sorted_refs lc h2 xs"
    using cur(2) sorted_refs_idem [OF cons objs2] by auto
  finally have s: "sorted_refs lc h cur = sorted_refs lc h2 xs" .
  have run: "sort_store lc ca h = Some (h[ca := Arr (sorted_refs lc h2 xs)])"
    using sort_store_eq [OF len cur(1)] k keyed_objs [OF objs_cur] s by simp
  have "evolves lc n0 h2 h (h[ca := Arr (sorted_refs lc h2 xs)])"
    unfolding evolves_def
  proof (intro conjI allI impI)
    show "length h \<le> length (h[ca := Arr (sorted_refs lc h2 xs)])" by simp
  next
    fix a assume a: "a < length h"
    show "h[ca := Arr (sorted_refs lc h2 xs)] ! a = h ! a \<or>
       (n0 \<le> a \<and> a < length h2 \<and> (\<exists>ys. h2 ! a = Arr ys \<and> h[ca := Arr (sorted_refs lc h2 xs)] ! a = Arr (sorted_refs lc h2 ys)))"
    proof (cases "a = ca")
      case True
      then show ?thesis using ca len by simp
    next
      case False
      then show ?thesis by simp
    qed
  qed
  with run show ?thesis by simp
qed

lemma copy_nodes_leaf:
  assumes "element h ca i = Some y" "obj_at h y = Some (r, None)"
  shows "copy_nodes sorter h ca (i # is) =
     (case copy_nodes sorter (h @ [Obj r None]) ca is of
        None \<Rightarrow> None
      | Some (zs, h3) \<Rightarrow> Some (length h # zs, h3))"
  using assms by (simp add: alloc_def)

lemma copy_nodes_folder_None:
  assumes "element h ca i = Some y" "obj_at h y = Some (r, Some cy)" "sorter h cy = None"
  shows "copy_nodes sorter h ca (i # is) = None"
  using assms by simp

lemma copy_nodes_folder_Some:
  assumes "element h ca i = Some y" "obj_at h y = Some (r, Some cy)" "sorter h cy = Some (out, h1)"
  shows "copy_nodes sorter h ca (i # is) =
     (case copy_nodes sorter (h1 @ [Obj r (Some out)]) ca is of
        None \<Rightarrow> None
      | Some (zs, h3) \<Rightarrow> Some (length h1 # zs, h3))"
  using assms by (simp add: alloc_def)

lemma copy_nodes_refines:
  assumes rel: "rel_store n0 nm h2 m"
    and IH: "\<And>h ca xs cs. evolves lc n0 h2 h2 h \<Longrightarrow> closed_from (length h2) h \<Longrightarrow> n0 \<le> ca
        \<Longrightarrow> ca < length h2 \<Longrightarrow> h2 ! ca = Arr xs \<Longrightarrow> map nm cs = map Some xs
        \<Longrightarrow> sorts_as lc n0 h2 m n h ca cs"
    and ca: "ca < length h2" "h2 ! ca = Arr xs"
    and nodes: "list_all2 (same_node n0 nm h2 m) (sorted_refs lc h2 xs) ns"
  shows "evolves lc n0 h2 h2 h \<Longrightarrow> closed_from (length h2) h \<Longrightarrow> h ! ca = Arr (sorted_refs lc h2 xs)
     \<Longrightarrow> \<forall>i\<in>set is. i < length (sorted_refs lc h2 xs)
     \<Longrightarrow> copies_as lc n0 h2 m n h ca is ns"
proof (induction "is" arbitrary: h)
  case Nil
  show ?case using Nil.prems(2) by (simp add: copies_as_def evolves_refl)
next
  case (Cons i "is")
  let ?ys = "sorted_refs lc h2 xs"
  let ?g = "\<lambda>i. copy_node lc m n (ns ! i)"
  note ev = Cons.prems(1) and cl = Cons.prems(2) and arr = Cons.prems(3)
  have i: "i < length ?ys" and rest: "\<forall>i\<in>set is. i < length ?ys" using Cons.prems(4) by simp_all
  have len: "length h2 \<le> length h" using ev by (rule evolves_length)
  have ca_h: "ca < length h" using ca(1) len by simp
  have el: "element h ca i = Some (?ys ! i)" using ca_h arr i by (rule element_Arr)
  have sn: "same_node n0 nm h2 m (?ys ! i) (ns ! i)" using nodes i by (rule list_all2_nthD)
  have th: "those (map ?g (i # is)) =
      (case ?g i of None \<Rightarrow> None | Some t \<Rightarrow> map_option ((#) t) (those (map ?g is)))"
    by simp
  show ?case
  proof (cases "children (ns ! i)")
    case None
    let ?r = "row (ns ! i)"
    let ?hm = "h @ [Obj ?r None]"
    from same_node_leaf [OF sn None] have y: "?ys ! i < length h2" "h2 ! (?ys ! i) = Obj ?r None" by simp_all
    have ob: "obj_at h (?ys ! i) = Some (?r, None)" using ev y by (rule evolved_obj_at)
    have run: "copy_nodes (sortNodes_store lc n) h ca (i # is) =
       (case copy_nodes (sortNodes_store lc n) ?hm ca is of
          None \<Rightarrow> None | Some (zs, h3) \<Rightarrow> Some (length h # zs, h3))"
      using el ob by (rule copy_nodes_leaf)
    have gi: "?g i = Some (Node ?r None)" using None by (simp add: copy_node_def)
    have ev_m: "evolves lc n0 h2 h ?hm" by (rule evolves_append)
    have ev2: "evolves lc n0 h2 h2 ?hm" using ev ev_m by (rule evolves_trans)
    have cl_m: "closed_from (length h2) ?hm"
      using cl by (rule closed_from_append) (simp add: cell_closed_def)
    have arr_m: "?hm ! ca = Arr ?ys" using arr ca_h by (simp add: nth_append)
    have tz: "tree_with (forest_at n ?hm) ?hm (length h) = Some (Node ?r None)"
      by (simp add: tree_with_def obj_at_def look_def)
    from Cons.IH [OF ev2 cl_m arr_m rest] have c: "copies_as lc n0 h2 m n ?hm ca is ns" .
    show ?thesis
    proof (cases "those (map ?g is)")
      case None
      then have "copy_nodes (sortNodes_store lc n) ?hm ca is = None" using c by (simp add: copies_as_def)
      then have "copy_nodes (sortNodes_store lc n) h ca (i # is) = None" using run by simp
      moreover have "those (map ?g (i # is)) = None" using th gi None by simp
      ultimately show ?thesis by (simp add: copies_as_def)
    next
      case (Some ts)
      then obtain zs h' where r: "copy_nodes (sortNodes_store lc n) ?hm ca is = Some (zs, h')"
        "evolves lc n0 h2 ?hm h'" "closed_from (length h2) h'"
        "list_all2 (\<lambda>z t. length h2 \<le> z \<and> z < length h' \<and> tree_with (forest_at n h') h' z = Some t) zs ts"
        using c by (auto simp: copies_as_def)
      have run': "copy_nodes (sortNodes_store lc n) h ca (i # is) = Some (length h # zs, h')"
        using run r(1) by simp
      have fn: "those (map ?g (i # is)) = Some (Node ?r None # ts)" using th gi Some by simp
      have ev': "evolves lc n0 h2 h h'" using ev_m r(2) by (rule evolves_trans)
      have lm: "length ?hm \<le> length h'" using r(2) by (rule evolves_length)
      have "tree_with (forest_at n h') h' (length h) = tree_with (forest_at n ?hm) ?hm (length h)"
      proof (rule tree_with_stable [OF cl_m lm])
        show "h' ! a = ?hm ! a" if "length h2 \<le> a" "a < length ?hm" for a
          using r(2) that by (rule evolves_new)
        show "length h2 \<le> length h" by (rule len)
        show "length h < length ?hm" by simp
      qed
      then have tz': "tree_with (forest_at n h') h' (length h) = Some (Node ?r None)" using tz by simp
      have "length h < length h'" using lm by simp
      then have "list_all2 (\<lambda>z t. length h2 \<le> z \<and> z < length h' \<and> tree_with (forest_at n h') h' z = Some t)
          (length h # zs) (Node ?r None # ts)"
        using r(4) tz' len by simp
      then show ?thesis using run' fn ev' r(3) by (simp add: copies_as_def)
    qed
  next
    case (Some cs)
    let ?r = "row (ns ! i)"
    from same_node_folder [OF sn Some] obtain cy xs' where y: "?ys ! i < length h2"
      "h2 ! (?ys ! i) = Obj ?r (Some cy)" and cy: "n0 \<le> cy" "cy < length h2" "h2 ! cy = Arr xs'"
      "map nm cs = map Some xs'" by blast
    have ob: "obj_at h (?ys ! i) = Some (?r, Some cy)" using ev y by (rule evolved_obj_at)
    have gi: "?g i = map_option (\<lambda>ts. Node ?r (Some ts)) (sortNodes lc m n cs)"
      using Some by (simp add: copy_node_def)
    from IH [OF ev cl cy] have s: "sorts_as lc n0 h2 m n h cy cs" .
    show ?thesis
    proof (cases "sortNodes lc m n cs")
      case None
      then have "sortNodes_store lc n h cy = None" using s by (simp add: sorts_as_def)
      with el ob have "copy_nodes (sortNodes_store lc n) h ca (i # is) = None"
        by (rule copy_nodes_folder_None)
      moreover have "those (map ?g (i # is)) = None" using th gi None by simp
      ultimately show ?thesis by (simp add: copies_as_def)
    next
      case (Some ts')
      then obtain out h1 where s1: "sortNodes_store lc n h cy = Some (out, h1)"
        "evolves lc n0 h2 h h1" "closed_from (length h2) h1" "length h2 \<le> out" "out < length h1"
        "forest_at n h1 out = Some ts'"
        using s by (auto simp: sorts_as_def)
      let ?hm = "h1 @ [Obj ?r (Some out)]"
      have run: "copy_nodes (sortNodes_store lc n) h ca (i # is) =
         (case copy_nodes (sortNodes_store lc n) ?hm ca is of
            None \<Rightarrow> None | Some (zs, h3) \<Rightarrow> Some (length h1 # zs, h3))"
        using el ob s1(1) by (rule copy_nodes_folder_Some)
      have gi': "?g i = Some (Node ?r (Some ts'))" using gi Some by simp
      have len1: "length h \<le> length h1" using s1(2) by (rule evolves_length)
      have ev_m: "evolves lc n0 h2 h ?hm" using s1(2) evolves_append by (rule evolves_trans)
      have ev2: "evolves lc n0 h2 h2 ?hm" using ev ev_m by (rule evolves_trans)
      have cl_m: "closed_from (length h2) ?hm"
        using s1(3) by (rule closed_from_append) (simp add: cell_closed_def s1(4,5))
      have "h1 ! ca = Arr ?ys" using s1(2) ca_h ca(2) arr by (rule evolves_sorted)
      then have arr_m: "?hm ! ca = Arr ?ys" using ca_h len1 by (simp add: nth_append)
      have "forest_at n ?hm out = forest_at n h1 out"
      proof (rule forest_at_stable [OF s1(3)])
        show "length h1 \<le> length ?hm" by simp
        show "?hm ! a = h1 ! a" if "a < length h1" for a using that by (simp add: nth_append)
        show "length h2 \<le> out" "out < length h1" by (rule s1(4), rule s1(5))
      qed
      then have tz: "tree_with (forest_at n ?hm) ?hm (length h1) = Some (Node ?r (Some ts'))"
        using s1(6) by (simp add: tree_with_def obj_at_def look_def)
      from Cons.IH [OF ev2 cl_m arr_m rest] have c: "copies_as lc n0 h2 m n ?hm ca is ns" .
      show ?thesis
      proof (cases "those (map ?g is)")
        case None
        then have "copy_nodes (sortNodes_store lc n) ?hm ca is = None" using c by (simp add: copies_as_def)
        then have "copy_nodes (sortNodes_store lc n) h ca (i # is) = None" using run by simp
        moreover have "those (map ?g (i # is)) = None" using th gi' None by simp
        ultimately show ?thesis by (simp add: copies_as_def)
      next
        case (Some ts)
        then obtain zs h' where r: "copy_nodes (sortNodes_store lc n) ?hm ca is = Some (zs, h')"
          "evolves lc n0 h2 ?hm h'" "closed_from (length h2) h'"
          "list_all2 (\<lambda>z t. length h2 \<le> z \<and> z < length h' \<and> tree_with (forest_at n h') h' z = Some t) zs ts"
          using c by (auto simp: copies_as_def)
        have run': "copy_nodes (sortNodes_store lc n) h ca (i # is) = Some (length h1 # zs, h')"
          using run r(1) by simp
        have fn: "those (map ?g (i # is)) = Some (Node ?r (Some ts') # ts)" using th gi' Some by simp
        have ev': "evolves lc n0 h2 h h'" using ev_m r(2) by (rule evolves_trans)
        have lm: "length ?hm \<le> length h'" using r(2) by (rule evolves_length)
        have b1: "length h2 \<le> length h1" using len len1 by simp
        have "tree_with (forest_at n h') h' (length h1) = tree_with (forest_at n ?hm) ?hm (length h1)"
        proof (rule tree_with_stable [OF cl_m lm])
          show "h' ! a = ?hm ! a" if "length h2 \<le> a" "a < length ?hm" for a
            using r(2) that by (rule evolves_new)
          show "length h2 \<le> length h1" by (rule b1)
          show "length h1 < length ?hm" by simp
        qed
        then have tz': "tree_with (forest_at n h') h' (length h1) = Some (Node ?r (Some ts'))"
          using tz by simp
        have "length h1 < length h'" using lm by simp
        then have "list_all2 (\<lambda>z t. length h2 \<le> z \<and> z < length h' \<and> tree_with (forest_at n h') h' z = Some t)
            (length h1 # zs) (Node ?r (Some ts') # ts)"
          using r(4) tz' b1 by simp
        then show ?thesis using run' fn ev' r(3) by (simp add: copies_as_def)
      qed
    qed
  qed
qed

lemma list_all2_left: "list_all2 P xs ys \<Longrightarrow> x \<in> set xs \<Longrightarrow> \<exists>y. P x y"
  by (induction rule: list_all2_induct) auto

lemma list_all2_map_Some: "list_all2 (\<lambda>z t. f z = Some t) zs ts \<Longrightarrow> map f zs = map Some ts"
  by (induction rule: list_all2_induct) simp_all

lemma map_nth_fun: "length ns = k \<Longrightarrow> map (\<lambda>i. f (ns ! i)) [0..<k] = map f ns"
  by (simp add: list_eq_iff_nth_eq)

lemma sortNodes_copy:
  "sortNodes lc m (Suc n) nodes =
     those (map (copy_node lc m n)
              (sort_by (\<lambda>a b. compare_nodes lc (row a) (row b)) (List.map_filter m nodes)))"
  by (simp add: copy_node_def [abs_def])

lemma sortNodes_store_Suc:
  assumes "sort_store lc ca h = Some h1" "count h1 ca = Some k"
  shows "sortNodes_store lc (Suc n) h ca =
     (case copy_nodes (sortNodes_store lc n) h1 ca [0..<k] of
        None \<Rightarrow> None
      | Some (zs, h') \<Rightarrow> Some (length h', h' @ [Arr zs]))"
  using assms by (simp add: alloc_def split: option.splits prod.splits)

lemma same_node_row:
  assumes "same_node n0 nm h2 m x node"
  shows "row_at h2 x = row node"
proof -
  from same_node_obj [OF assms] obtain c where "x < length h2" "h2 ! x = Obj (row node) c" by blast
  then have "obj_at h2 x = Some (row node, c)" by (rule obj_at_Obj)
  then show ?thesis by (simp add: row_at_def)
qed

lemma sortNodes_store_refines:
  assumes cons: "consistent lc" and rel: "rel_store n0 nm h2 m"
  shows "evolves lc n0 h2 h2 h \<Longrightarrow> closed_from (length h2) h \<Longrightarrow> n0 \<le> ca \<Longrightarrow> ca < length h2
     \<Longrightarrow> h2 ! ca = Arr xs \<Longrightarrow> map nm cs = map Some xs \<Longrightarrow> sorts_as lc n0 h2 m n h ca cs"
proof (induction n arbitrary: h ca xs cs)
  case 0
  show ?case by (simp add: sorts_as_def)
next
  case (Suc n)
  note ev = Suc.prems(1) and cl = Suc.prems(2) and ca = Suc.prems(3,4,5) and refs = Suc.prems(6)
  let ?ys = "sorted_refs lc h2 xs"
  let ?unsorted = "List.map_filter m cs"
  let ?ns = "sort_by (\<lambda>a b. compare_nodes lc (row a) (row b)) ?unsorted"
  let ?h1 = "h[ca := Arr ?ys]"
  have nodes0: "list_all2 (same_node n0 nm h2 m) xs ?unsorted" using rel refs by (rule refs_nodes)
  have objs: "\<forall>x\<in>set xs. x < length h2 \<and> (\<exists>r c. h2 ! x = Obj r c)"
  proof
    fix x assume "x \<in> set xs"
    from list_all2_left [OF nodes0 this] obtain node where "same_node n0 nm h2 m x node" by blast
    from same_node_obj [OF this] show "x < length h2 \<and> (\<exists>r c. h2 ! x = Obj r c)" by blast
  qed
  have objs2: "\<forall>x\<in>set xs. \<exists>r c. obj_at h2 x = Some (r, c)" using objs obj_at_Obj by blast
  from sort_store_evolved [OF cons ev ca objs]
  have srt: "sort_store lc ca h = Some ?h1" and ev1: "evolves lc n0 h2 h ?h1" by simp_all
  have len: "length h2 \<le> length h" using ev by (rule evolves_length)
  have ca_h: "ca < length h" using ca(2) len by simp
  have arr1: "?h1 ! ca = Arr ?ys" using ca_h by simp
  have cnt: "count ?h1 ca = Some (length ?ys)" using arr1 ca_h by (simp add: count_Arr)
  have run: "sortNodes_store lc (Suc n) h ca =
     (case copy_nodes (sortNodes_store lc n) ?h1 ca [0..<length ?ys] of
        None \<Rightarrow> None
      | Some (zs, h') \<Rightarrow> Some (length h', h' @ [Arr zs]))"
    using srt cnt by (rule sortNodes_store_Suc)
  have "list_all2 (same_node n0 nm h2 m) (sort_by (cmp_refs lc h2) xs) ?ns"
  proof (rule sort_by_rel [OF _ nodes0])
    fix x x' y y'
    assume "same_node n0 nm h2 m x y" "same_node n0 nm h2 m x' y'"
    then show "cmp_refs lc h2 x x' = compare_nodes lc (row y) (row y')"
      by (simp add: cmp_refs_def same_node_row)
  qed
  then have nodes: "list_all2 (same_node n0 nm h2 m) ?ys ?ns"
    using sorted_refs_objs [OF objs2] by simp
  have lens: "length ?ns = length ?ys" using nodes by (simp add: list_all2_lengthD)
  have ev2: "evolves lc n0 h2 h2 ?h1" using ev ev1 by (rule evolves_trans)
  have cl1: "closed_from (length h2) ?h1" using cl ca(2) by (rule closed_from_update)
  have "copies_as lc n0 h2 m n ?h1 ca [0..<length ?ys] ?ns"
    by (rule copy_nodes_refines [OF rel Suc.IH ca(2,3) nodes ev2 cl1 arr1]) simp_all
  moreover have "map (\<lambda>i. copy_node lc m n (?ns ! i)) [0..<length ?ys] = map (copy_node lc m n) ?ns"
    using lens by (rule map_nth_fun)
  ultimately have c: "case sortNodes lc m (Suc n) cs of
        None \<Rightarrow> copy_nodes (sortNodes_store lc n) ?h1 ca [0..<length ?ys] = None
      | Some ts \<Rightarrow>
          (\<exists>zs h'. copy_nodes (sortNodes_store lc n) ?h1 ca [0..<length ?ys] = Some (zs, h')
             \<and> evolves lc n0 h2 ?h1 h' \<and> closed_from (length h2) h'
             \<and> list_all2 (\<lambda>z t. length h2 \<le> z \<and> z < length h'
                    \<and> tree_with (forest_at n h') h' z = Some t) zs ts)"
    by (simp only: copies_as_def sortNodes_copy)
  show ?case
  proof (cases "sortNodes lc m (Suc n) cs")
    case None
    then have "copy_nodes (sortNodes_store lc n) ?h1 ca [0..<length ?ys] = None" using c by simp
    then show ?thesis using run None by (simp add: sorts_as_def del: sortNodes.simps sortNodes_store.simps)
  next
    case (Some ts)
    then obtain zs h' where r: "copy_nodes (sortNodes_store lc n) ?h1 ca [0..<length ?ys] = Some (zs, h')"
      "evolves lc n0 h2 ?h1 h'" "closed_from (length h2) h'"
      "list_all2 (\<lambda>z t. length h2 \<le> z \<and> z < length h' \<and> tree_with (forest_at n h') h' z = Some t) zs ts"
      using c by auto
    let ?h'' = "h' @ [Arr zs]"
    have run': "sortNodes_store lc (Suc n) h ca = Some (length h', ?h'')" using run r(1) by simp
    have ev': "evolves lc n0 h2 h ?h''"
      using ev1 evolves_trans [OF r(2) evolves_append] by (rule evolves_trans)
    have len': "length h2 \<le> length h'" using len evolves_length [OF r(2)] by simp
    have zs: "\<forall>z\<in>set zs. length h2 \<le> z \<and> z < length h'"
    proof
      fix z assume "z \<in> set zs"
      from list_all2_left [OF r(4) this] show "length h2 \<le> z \<and> z < length h'" by blast
    qed
    have cl': "closed_from (length h2) ?h''"
      using r(3) by (rule closed_from_append) (simp add: cell_closed_def zs)
    have "list_all2 (\<lambda>z t. tree_with (forest_at n ?h'') ?h'' z = Some t) zs ts"
      using r(4)
    proof (rule list_all2_mono)
      fix z t assume zt: "length h2 \<le> z \<and> z < length h' \<and> tree_with (forest_at n h') h' z = Some t"
      have "tree_with (forest_at n ?h'') ?h'' z = tree_with (forest_at n h') h' z"
      proof (rule tree_with_stable [OF r(3)])
        show "length h' \<le> length ?h''" by simp
        show "?h'' ! a = h' ! a" if "a < length h'" for a using that by (simp add: nth_append)
        show "length h2 \<le> z" "z < length h'" using zt by simp_all
      qed
      then show "tree_with (forest_at n ?h'') ?h'' z = Some t" using zt by simp
    qed
    then have "map (tree_with (forest_at n ?h'') ?h'') zs = map Some ts" by (rule list_all2_map_Some)
    then have "those (map (tree_with (forest_at n ?h'') ?h'') zs) = Some ts" by (simp only: those_eq_Some)
    then have out: "forest_at (Suc n) ?h'' (length h') = Some ts" by (simp add: look_def)
    show ?thesis
      unfolding sorts_as_def using Some run' ev' cl' len' out
      by (simp del: sortNodes.simps sortNodes_store.simps forest_at.simps)
  qed
qed

section \<open>Purity\<close>

lemma closed_from_length: "closed_from (length h) h"
  unfolding closed_from_def by auto

lemma buildTree_store_eq:
  assumes "count (h @ [Arr []]) f = Some k"
    "forEach (index_file_store f) k (h @ [Arr []], Map.empty) = Some (h1, nm)"
    "count h1 f = Some k'"
    "forEach (link_file_store f (length h) nm) k' h1 = Some h2"
  shows "buildTree_store lc h f = sortNodes_store lc (Suc k') h2 (length h)"
  using assms by (simp add: buildTree_store_def alloc_def del: sortNodes_store.simps)

lemma buildTree_store_refines:
  assumes cons: "consistent lc" and rows: "rows_at h f = Some rows"
  shows "case buildTree lc rows of
           None \<Rightarrow> buildTree_store lc h f = None
         | Some ts \<Rightarrow>
             (\<exists>out h'. buildTree_store lc h f = Some (out, h') \<and> take (length h) h' = h
                \<and> forest_at (Suc (length rows)) h' out = Some ts)"
proof -
  let ?n0 = "length h"
  let ?m = "linked rows rows"
  have "rows_at (h @ [Arr []]) f = Some rows" using rows by (rule rows_at_take) simp
  then have c0: "count (h @ [Arr []]) f = Some (length rows)" by (rule count_rows)
  from first_loop_store [OF rows] obtain h1 nm where
    l1: "forEach (index_file_store f) (length rows) (h @ [Arr []], Map.empty) = Some (h1, nm)"
    and h1: "take ?n0 h1 = h" "?n0 < length h1" "h1 ! ?n0 = Arr []"
    and rel1: "rel_store ?n0 nm h1 (linked rows [])" by blast
  have "rows_at h1 f = Some rows" using rows h1(1) by (rule rows_at_take)
  then have c1: "count h1 f = Some (length rows)" by (rule count_rows)
  from second_loop_store [OF rows h1 rel1] obtain h2 rs where
    l2: "forEach (link_file_store f ?n0 nm) (length rows) h1 = Some h2"
    and h2: "take ?n0 h2 = h" "?n0 < length h2"
    and rel: "rel_store ?n0 nm h2 ?m"
    and rs: "h2 ! ?n0 = Arr rs" "map nm (roots_of rows rows) = map Some rs" by blast
  have run: "buildTree_store lc h f = sortNodes_store lc (Suc (length rows)) h2 ?n0"
    using c0 l1 c1 l2 by (rule buildTree_store_eq)
  have "sorts_as lc ?n0 h2 ?m (Suc (length rows)) h2 ?n0 (roots_of rows rows)"
    by (rule sortNodes_store_refines [OF cons rel evolves_refl closed_from_length _ h2(2) rs]) simp
  then have s: "case buildTree lc rows of
        None \<Rightarrow> buildTree_store lc h f = None
      | Some ts \<Rightarrow>
          (\<exists>out h'. buildTree_store lc h f = Some (out, h') \<and> evolves lc ?n0 h2 h2 h'
             \<and> closed_from (length h2) h' \<and> length h2 \<le> out \<and> out < length h'
             \<and> forest_at (Suc (length rows)) h' out = Some ts)"
    by (simp only: sorts_as_def buildTree_eq run)
  show ?thesis
  proof (cases "buildTree lc rows")
    case None
    then show ?thesis using s by simp
  next
    case (Some ts)
    then obtain out h' where r: "buildTree_store lc h f = Some (out, h')" "evolves lc ?n0 h2 h2 h'"
      "forest_at (Suc (length rows)) h' out = Some ts"
      using s by auto
    have "take ?n0 h' = take ?n0 h2" using r(2) by (rule evolves_take) (use h2(2) in simp)
    then have "take ?n0 h' = h" using h2(1) by simp
    then show ?thesis using Some r(1,3) by (simp del: forest_at.simps)
  qed
qed

text \<open>
  C8: the collation being consistent and \<^verbatim>\<open>files\<close> an array of row objects, a call of
  \<^verbatim>\<open>buildTree\<close> that returns has written to no cell that was in the store before the
  call (its pushes and its in-place sorts go to arrays of its own making): the array
  \<^verbatim>\<open>files\<close> and the row objects are as they were. The forest read at the reference
  it returns is the output of \<^const>\<open>buildTree\<close> on the rows. A second call, on the
  store as the first one left it, returns as well, writes to no cell of that store,
  and the forest at its reference is the same as the forest at the first. With unique
  ids the call returns.
\<close>

theorem buildTree_store_pure:
  assumes "consistent lc" "rows_at h filesRef = Some rows"
  shows "(distinct (map id_f rows) \<longrightarrow> (\<exists>out h'. buildTree_store lc h filesRef = Some (out, h')))
     \<and> (\<forall>out h'. buildTree_store lc h filesRef = Some (out, h') \<longrightarrow>
           take (length h) h' = h \<and> rows_at h' filesRef = Some rows
         \<and> forest_at (Suc (length rows)) h' out = buildTree lc rows
         \<and> (\<exists>ts. forest_at (Suc (length rows)) h' out = Some ts)
         \<and> (\<exists>out2 h''. buildTree_store lc h' filesRef = Some (out2, h'')
               \<and> take (length h') h'' = h'
               \<and> forest_at (Suc (length rows)) h'' out2 = forest_at (Suc (length rows)) h' out))"
proof (intro conjI allI impI)
  assume "distinct (map id_f rows)"
  then obtain ts where "buildTree lc rows = Some ts" using buildTree_total by blast
  then show "\<exists>out h'. buildTree_store lc h filesRef = Some (out, h')"
    using buildTree_store_refines [OF assms] by auto
next
  fix out h' assume run: "buildTree_store lc h filesRef = Some (out, h')"
  from buildTree_store_refines [OF assms] run obtain ts where ts: "buildTree lc rows = Some ts"
    "take (length h) h' = h" "forest_at (Suc (length rows)) h' out = Some ts"
    by (cases "buildTree lc rows") auto
  have rows': "rows_at h' filesRef = Some rows" using assms(2) ts(2) by (rule rows_at_take)
  from buildTree_store_refines [OF assms(1) rows'] ts(1) obtain out2 h'' where
    r2: "buildTree_store lc h' filesRef = Some (out2, h'')" "take (length h') h'' = h'"
    "forest_at (Suc (length rows)) h'' out2 = Some ts" by auto
  show "take (length h) h' = h" by (rule ts(2))
  show "rows_at h' filesRef = Some rows" by (rule rows')
  show "forest_at (Suc (length rows)) h' out = buildTree lc rows" using ts(1,3) by simp
  show "\<exists>ts. forest_at (Suc (length rows)) h' out = Some ts" using ts(3) by blast
  show "\<exists>out2 h''. buildTree_store lc h' filesRef = Some (out2, h'') \<and> take (length h') h'' = h'
      \<and> forest_at (Suc (length rows)) h'' out2 = forest_at (Suc (length rows)) h' out"
    using r2 ts(3) by (simp del: forest_at.simps)
qed

lemma unsorted_store_rows: "rows_at unsorted_store 5 = Some unsorted_rows"
  by code_simp

lemma unsorted_store_run: "buildTree_store by_code unsorted_store 5 = Some (21, unsorted_store_after)"
  by code_simp

lemma unsorted_store_take: "take (length unsorted_store) unsorted_store_after = unsorted_store"
  by (simp add: unsorted_store_after_def)

theorem buildTree_store_pure_witness:
  "consistent by_code \<and> rows_at unsorted_store 5 = Some unsorted_rows
   \<and> distinct (map id_f unsorted_rows)
   \<and> buildTree_store by_code unsorted_store 5 = Some (21, unsorted_store_after)
   \<and> take (length unsorted_store) unsorted_store_after = unsorted_store
   \<and> rows_at unsorted_store_after 5 = Some unsorted_rows
   \<and> forest_at 6 unsorted_store_after 21 =
       Some [Node (mk_file ''2'' ''src'' FOLDER None)
               (Some [Node (mk_file ''5'' ''lib'' FOLDER (Some ''2'')) (Some []),
                      Node (mk_file ''4'' ''z.ts'' FILE (Some ''2'')) None]),
             Node (mk_file ''3'' ''a.js'' FILE None) None,
             Node (mk_file ''1'' ''b.js'' FILE None) None]
   \<and> (\<exists>out2 h''. buildTree_store by_code unsorted_store_after 5 = Some (out2, h'')
         \<and> take (length unsorted_store_after) h'' = unsorted_store_after
         \<and> forest_at 6 h'' out2 = forest_at 6 unsorted_store_after 21)"
proof -
  have d: "distinct (map id_f unsorted_rows)" by (simp add: unsorted_rows_def mk_file_def)
  have n: "Suc (length unsorted_rows) = 6" by (simp add: unsorted_rows_def)
  from buildTree_store_pure [OF by_code_consistent unsorted_store_rows]
    unsorted_store_run
  have "rows_at unsorted_store_after 5 = Some unsorted_rows
     \<and> forest_at 6 unsorted_store_after 21 = buildTree by_code unsorted_rows
     \<and> (\<exists>out2 h''. buildTree_store by_code unsorted_store_after 5 = Some (out2, h'')
           \<and> take (length unsorted_store_after) h'' = unsorted_store_after
           \<and> forest_at 6 h'' out2 = forest_at 6 unsorted_store_after 21)"
    unfolding n by blast
  then have "rows_at unsorted_store_after 5 = Some unsorted_rows"
    and "forest_at 6 unsorted_store_after 21 = buildTree by_code unsorted_rows"
    and "\<exists>out2 h''. buildTree_store by_code unsorted_store_after 5 = Some (out2, h'')
           \<and> take (length unsorted_store_after) h'' = unsorted_store_after
           \<and> forest_at 6 h'' out2 = forest_at 6 unsorted_store_after 21"
    by blast+
  then show ?thesis
    unfolding unsorted_rows_tree
    by (intro conjI) (rule by_code_consistent unsorted_store_rows d unsorted_store_run unsorted_store_take | assumption)+
qed

end
